theory Spec2Isabelle
  imports Main "HOL-Library.AList" "HOL-Library.Multiset"
begin

section \<open>Values of parsed documents\<close>

text \<open>
  A parsed document is what the YAML/JSON parser hands to the runner: nested Python
  values. A dict keeps its insertion order, and \<open>_get_jobs\<close> depends on that order, so a
  dict is an association list of items in iteration order. Keys are strings, plus the
  boolean key that YAML 1.1 produces for a top-level \<open>on:\<close>.
\<close>

datatype pykey = KStr string | KBool bool

datatype pyval =
    VNone
  | VBool bool
  | VInt int
  | VStr string
  | VList "pyval list"
  | VDict "(pykey \<times> pyval) list"

datatype error = AttributeError | KeyError

type_synonym raw_line = "int \<times> string"

text \<open>
  Modelled from the spec: the constants \<open>START_LINE\<close> and \<open>END_LINE\<close> of
  \<open>checkov.common.util.consts\<close> are imported by the source but are not part of it; they are
  the two reserved line-marker keys, two distinct strings.
\<close>

definition START_LINE :: pykey where
  "START_LINE = KStr ''__startline__''"

definition END_LINE :: pykey where
  "END_LINE = KStr ''__endline__''"

text \<open>Python truthiness, as used by \<open>if jobs:\<close>, \<open>if triggers:\<close> and \<open>if result_config:\<close>.\<close>

fun truthy :: "pyval \<Rightarrow> bool" where
  "truthy VNone = False"
| "truthy (VBool b) = b"
| "truthy (VInt i) = (i \<noteq> 0)"
| "truthy (VStr s) = (s \<noteq> [])"
| "truthy (VList xs) = (xs \<noteq> [])"
| "truthy (VDict d) = (d \<noteq> [])"

text \<open>\<open>d.get(k)\<close>: the value, or \<open>None\<close> for a missing key. Only a dict has \<open>get\<close>.\<close>

definition dict_get :: "(pykey \<times> pyval) list \<Rightarrow> pykey \<Rightarrow> pyval" where
  "dict_get d k = (case map_of d k of None \<Rightarrow> VNone | Some v \<Rightarrow> v)"

fun py_get :: "pyval \<Rightarrow> pykey \<Rightarrow> error + pyval" where
  "py_get (VDict d) k = Inr (dict_get d k)"
| "py_get _ k = Inl AttributeError"

text \<open>\<open>v.keys()\<close> and \<open>v.items()\<close>: only a dict has them.\<close>

fun py_keys :: "pyval \<Rightarrow> error + pykey list" where
  "py_keys (VDict d) = Inr (map fst d)"
| "py_keys _ = Inl AttributeError"

fun py_items :: "pyval \<Rightarrow> error + (pykey \<times> pyval) list" where
  "py_items (VDict d) = Inr d"
| "py_items _ = Inl AttributeError"

section \<open>The structural extractor\<close>

subsection \<open>Triggers\<close>

text \<open>
  The body of the \<open>try\<close> block of \<open>_get_triggers\<close>, started with \<open>triggers_set = set()\<close>:
  it yields the new value of \<open>triggers_set\<close>, or the exception raised.
\<close>

definition get_triggers_try :: "pyval \<Rightarrow> error + pykey set" where
  "get_triggers_try triggers =
     (if truthy triggers then
        (case py_keys triggers of
           Inl e \<Rightarrow> Inl e
         | Inr ks \<Rightarrow> Inr (set (filter (\<lambda>key. key \<noteq> START_LINE \<and> key \<noteq> END_LINE) ks)))
      else Inr {})"

text \<open>
  \<open>_get_triggers\<close>: the lookup \<open>result[0].get(True)\<close> stands before the \<open>try\<close>, so its
  exception is not caught; an exception of the body leaves \<open>triggers_set\<close> empty.
\<close>

definition get_triggers :: "pyval \<times> raw_line list \<Rightarrow> error + pykey set" where
  "get_triggers result =
     (case py_get (fst result) (KBool True) of
        Inl e \<Rightarrow> Inl e
      | Inr triggers \<Rightarrow>
          (case get_triggers_try triggers of
             Inl e \<Rightarrow> Inr {}
           | Inr triggers_set \<Rightarrow> Inr triggers_set))"

subsection \<open>Jobs\<close>

type_synonym jobs_dict = "(pykey \<times> (pykey \<times> pyval) list) list"

text \<open>\<open>jobs_dict[tmp_key][marker] = value\<close>: the subscript raises when the key is missing.\<close>

definition set_marker :: "jobs_dict \<Rightarrow> pykey \<Rightarrow> pykey \<Rightarrow> pyval \<Rightarrow> error + jobs_dict" where
  "set_marker jobs_dict tmp_key marker v =
     (case map_of jobs_dict tmp_key of
        None \<Rightarrow> Inl KeyError
      | Some bag \<Rightarrow> Inr (AList.update tmp_key (AList.update marker v bag) jobs_dict))"

text \<open>One iteration of the loop of \<open>_get_jobs\<close>, on the state \<open>(jobs_dict, tmp_key)\<close>.\<close>

definition jobs_step :: "jobs_dict \<times> pykey \<Rightarrow> pykey \<times> pyval \<Rightarrow> error + jobs_dict \<times> pykey" where
  "jobs_step s item =
     (let jobs_dict = fst s; tmp_key = snd s; key = fst item; v = snd item in
      if key \<noteq> START_LINE \<and> key \<noteq> END_LINE then Inr (AList.update key [] jobs_dict, key)
      else
        (case (if key = START_LINE then set_marker jobs_dict tmp_key START_LINE v
               else Inr jobs_dict) of
           Inl e \<Rightarrow> Inl e
         | Inr jd1 \<Rightarrow>
             (case (if key = END_LINE then set_marker jd1 tmp_key END_LINE v else Inr jd1) of
                Inl e \<Rightarrow> Inl e
              | Inr jd2 \<Rightarrow> Inr (jd2, tmp_key))))"

fun jobs_loop :: "jobs_dict \<times> pykey \<Rightarrow> (pykey \<times> pyval) list \<Rightarrow> error + jobs_dict \<times> pykey" where
  "jobs_loop s [] = Inr s"
| "jobs_loop s (item # rest) =
     (case jobs_step s item of Inl e \<Rightarrow> Inl e | Inr s' \<Rightarrow> jobs_loop s' rest)"

definition get_jobs :: "pyval \<times> raw_line list \<Rightarrow> error + jobs_dict" where
  "get_jobs result =
     (case py_get (fst result) (KStr ''jobs'') of
        Inl e \<Rightarrow> Inl e
      | Inr jobs \<Rightarrow>
          if truthy jobs then
            (case py_items jobs of
               Inl e \<Rightarrow> Inl e
             | Inr items \<Rightarrow>
                 (case jobs_loop ([], KStr []) items of
                    Inl e \<Rightarrow> Inl e
                  | Inr s \<Rightarrow> Inr (fst s)))
          else Inr [])"

definition is_marker :: "pykey \<Rightarrow> bool" where
  "is_marker key = (key = START_LINE \<or> key = END_LINE)"

section \<open>The runner\<close>

subsection \<open>State and collaborators\<close>

datatype check_type = GITHUB_ACTIONS | OtherCheckType string

text \<open>The fields \<open>__init__\<close> gives the runner, with the \<open>check_type\<close> of the deriving class.\<close>

record runner =
  check_type :: check_type
  workflow_name :: pyval
  jobs :: "jobs_dict option"
  triggers :: "pykey set option"

type_synonym parsed = "pyval \<times> raw_line list"
type_synonym definitions = "(string \<times> pyval) list"
type_synonym definitions_raw = "(string \<times> raw_line list) list"

text \<open>The attributes of a check object that \<open>run\<close> reads.\<close>

record check_obj =
  c_id :: string
  c_bc_id :: string
  c_name :: string
  c_supported_entities :: "string list"
  c_module :: string
  c_severity :: string

text \<open>
  Modelled from the spec: the raw check results are built by the check registry, which is
  not part of the source. Following the data model of the spec, a raw result holds the
  result-configuration substructure (\<open>None\<close> or empty when there is no location), the check
  object when it resolves (\<open>result.pop("check", None)\<close> gives \<open>None\<close> otherwise) and the
  outcome payload.
\<close>

record raw_result =
  results_configuration :: pyval
  check :: "check_obj option"
  payload :: pyval

text \<open>The \<open>GithubActionsRecord\<close> wrapper adds the run metadata of the runner.\<close>

record github_actions_meta =
  gha_jobs :: "jobs_dict option"
  gha_triggers :: "pykey set option"
  gha_workflow_name :: pyval

text \<open>
  The \<open>Record\<close> that \<open>run\<close> builds; \<open>evaluations\<close> and \<open>entity_tags\<close> are always \<open>None\<close>
  and are left out.
\<close>

record finding =
  check_id :: string
  bc_check_id :: string
  check_name :: string
  check_result :: pyval
  code_block :: "raw_line list"
  file_path :: string
  file_line_range :: "int list"
  resource :: string
  check_class :: string
  file_abs_path :: string
  severity :: string
  github_actions :: "github_actions_meta option"

record report =
  report_check_type :: check_type
  records :: "finding list"

text \<open>
  The collaborators of the runner that are not part of the source: the abstract methods of
  the deriving class (\<open>_parse_file\<close>, \<open>get_start_end_lines\<close>, \<open>require_external_checks\<close>), the
  registry that \<open>import_registry\<close> returns (its state is \<open>'reg\<close>), the parallel runner, the
  suppression collector, the path filter and the functions of \<open>os\<close> and \<open>platform\<close>. The
  runner filter is an argument that \<open>run\<close> only hands on to \<open>scan\<close> and
  \<open>filter_ignored_paths\<close>; it is part of these two. \<open>get_start_end_lines\<close> returns the pair
  in the order \<open>run\<close> unpacks it: \<open>(end, start)\<close>. \<open>os_walk\<close> yields the triples
  \<open>(root, d_names, f_names)\<close>; \<open>filter_ignored_paths\<close> gives the entries it leaves in the
  list. The progress bar and the logger have no effect on the result and are left out.
\<close>

record ('reg, 'skips) env =
  parse_file :: "string \<Rightarrow> parsed option"
  run_function ::
    "(string \<Rightarrow> string \<times> parsed option) \<Rightarrow> string list \<Rightarrow> (string \<times> parsed option) list"
  get_start_end_lines :: "int \<Rightarrow> pyval \<Rightarrow> int \<Rightarrow> int \<times> int"
  require_external_checks :: bool
  load_external_checks :: "string \<Rightarrow> 'reg \<Rightarrow> 'reg"
  scan :: "'reg \<Rightarrow> string \<Rightarrow> pyval \<Rightarrow> 'skips \<Rightarrow> (string \<times> raw_result) list"
  collect_suppressions_for_context :: "raw_line list \<Rightarrow> 'skips"
  os_walk :: "string \<Rightarrow> (string \<times> string list \<times> string list) list"
  filter_ignored_paths :: "string \<Rightarrow> string list \<Rightarrow> string list"
  path_join :: "string \<Rightarrow> string \<Rightarrow> string"
  relpath :: "string \<Rightarrow> string option \<Rightarrow> string"
  abspath :: "string \<Rightarrow> string"
  path_split_head :: "string \<Rightarrow> string"
  platform_system :: string

subsection \<open>Loading\<close>

text \<open>
  One iteration of the loop of \<open>_load_files\<close> over \<open>(file, result)\<close>. A result is a pair or
  \<open>None\<close>, and a pair is truthy. Storing under an existing key keeps its place in the dict.
\<close>

definition load_step ::
  "runner \<times> definitions \<times> definitions_raw \<Rightarrow> string \<times> parsed option \<Rightarrow>
   error + runner \<times> definitions \<times> definitions_raw" where
  "load_step s fr =
     (case snd fr of
        None \<Rightarrow> Inr s
      | Some result \<Rightarrow>
          (let self = fst s;
               definitions = AList.update (fst fr) (fst result) (fst (snd s));
               definitions_raw = AList.update (fst fr) (snd result) (snd (snd s))
           in if check_type self = GITHUB_ACTIONS then
                (case py_get (fst result) (KStr ''name'') of
                   Inl e \<Rightarrow> Inl e
                 | Inr name \<Rightarrow>
                     (case get_jobs result of
                        Inl e \<Rightarrow> Inl e
                      | Inr j \<Rightarrow>
                          (case get_triggers result of
                             Inl e \<Rightarrow> Inl e
                           | Inr t \<Rightarrow>
                               Inr (self\<lparr>workflow_name := name, jobs := Some j, triggers := Some t\<rparr>,
                                    definitions, definitions_raw))))
              else Inr (self, definitions, definitions_raw)))"

fun load_results ::
  "runner \<times> definitions \<times> definitions_raw \<Rightarrow> (string \<times> parsed option) list \<Rightarrow>
   error + runner \<times> definitions \<times> definitions_raw" where
  "load_results s [] = Inr s"
| "load_results s (fr # rest) =
     (case load_step s fr of Inl e \<Rightarrow> Inl e | Inr s' \<Rightarrow> load_results s' rest)"

definition load_files ::
  "('reg, 'skips) env \<Rightarrow> runner \<times> definitions \<times> definitions_raw \<Rightarrow> string list \<Rightarrow>
   (string \<Rightarrow> string) option \<Rightarrow> error + runner \<times> definitions \<times> definitions_raw" where
  "load_files E s files_to_load filename_fn =
     (let files_to_load' =
            map (\<lambda>file. case filename_fn of Some fn \<Rightarrow> fn file | None \<Rightarrow> file) files_to_load;
          results = run_function E (\<lambda>f. (f, parse_file E f)) files_to_load'
      in load_results s results)"

text \<open>The loop of \<open>run\<close> over \<open>os.walk(root_folder)\<close>.\<close>

fun load_walk ::
  "('reg, 'skips) env \<Rightarrow> runner \<times> definitions \<times> definitions_raw \<Rightarrow>
   (string \<times> string list \<times> string list) list \<Rightarrow>
   error + runner \<times> definitions \<times> definitions_raw" where
  "load_walk E s [] = Inr s"
| "load_walk E s (w # rest) =
     (case load_files E s (filter_ignored_paths E (fst w) (snd (snd w)))
             (Some (path_join E (fst w))) of
        Inl e \<Rightarrow> Inl e
      | Inr s' \<Rightarrow> load_walk E s' rest)"

subsection \<open>From raw results to findings\<close>

text \<open>
  A Python slice \<open>xs[i:j]\<close>: a negative index counts from the end, and both indices are
  clipped to the list; it never raises.
\<close>

definition slice_index :: "nat \<Rightarrow> int \<Rightarrow> nat" where
  "slice_index n i = (if i < 0 then nat (max 0 (i + int n)) else min (nat i) n)"

definition py_slice :: "'a list \<Rightarrow> int \<Rightarrow> int \<Rightarrow> 'a list" where
  "py_slice xs i j =
     (let lo = slice_index (length xs) i; hi = slice_index (length xs) j
      in if lo < hi then take (hi - lo) (drop lo xs) else [])"

text \<open>The start and end lines of a result, as \<open>(start, end)\<close>: both 0 unless \<open>result_config\<close> is truthy.\<close>

definition resolve_lines :: "('reg, 'skips) env \<Rightarrow> pyval \<Rightarrow> int \<times> int" where
  "resolve_lines E result_config =
     (if truthy result_config then
        (let es = get_start_end_lines E 0 result_config 0 in (snd es, fst es))
      else (0, 0))"

definition get_resource :: "string \<Rightarrow> string \<Rightarrow> string list \<Rightarrow> string" where
  "get_resource fp key supported_entities = fp @ ''.'' @ key"

text \<open>The record built for a result with the check object \<open>c\<close>; \<open>root\<close> is \<open>root_folder\<close> as it is then.\<close>

definition build_record ::
  "('reg, 'skips) env \<Rightarrow> runner \<Rightarrow> string \<Rightarrow> string option \<Rightarrow> raw_line list \<Rightarrow>
   string \<Rightarrow> raw_result \<Rightarrow> check_obj \<Rightarrow> finding" where
  "build_record E self fp root raw key result c =
     (let se = resolve_lines E (results_configuration result); start = fst se; end = snd se in
      \<lparr>check_id = c_id c,
       bc_check_id = c_bc_id c,
       check_name = c_name c,
       check_result = payload result,
       code_block = py_slice raw (start - 1) (end + 1),
       file_path = ''/'' @ relpath E fp root,
       file_line_range = [start, end + 1],
       resource = get_resource fp key (c_supported_entities c),
       check_class = c_module c,
       file_abs_path = abspath E fp,
       severity = c_severity c,
       github_actions =
         (if check_type self = GITHUB_ACTIONS then
            Some \<lparr>gha_jobs = jobs self, gha_triggers = triggers self,
                  gha_workflow_name = workflow_name self\<rparr>
          else None)\<rparr>)"

text \<open>
  One iteration of the loop over \<open>results.items()\<close>, on the state \<open>(root_folder, records)\<close>:
  a result without check object is passed over; on Windows \<open>root_folder\<close> is replaced.
\<close>

definition process_result ::
  "('reg, 'skips) env \<Rightarrow> runner \<Rightarrow> string \<Rightarrow> raw_line list \<Rightarrow>
   string option \<times> finding list \<Rightarrow> string \<times> raw_result \<Rightarrow> string option \<times> finding list" where
  "process_result E self fp raw s kr =
     (case check (snd kr) of
        None \<Rightarrow> s
      | Some c \<Rightarrow>
          (let root =
                 (if platform_system E = ''Windows'' then Some (path_split_head E fp) else fst s)
           in (root, snd s @ [build_record E self fp root raw (fst kr) (snd kr) c])))"

fun process_results ::
  "('reg, 'skips) env \<Rightarrow> runner \<Rightarrow> string \<Rightarrow> raw_line list \<Rightarrow>
   string option \<times> finding list \<Rightarrow> (string \<times> raw_result) list \<Rightarrow> string option \<times> finding list" where
  "process_results E self fp raw s [] = s"
| "process_results E self fp raw s (kr # rest) =
     process_results E self fp raw (process_result E self fp raw s kr) rest"

text \<open>The loop over \<open>definitions.keys()\<close>; \<open>definitions_raw[file_path]\<close> raises on a missing key.\<close>

fun scan_files ::
  "('reg, 'skips) env \<Rightarrow> runner \<Rightarrow> 'reg \<Rightarrow> definitions_raw \<Rightarrow>
   string option \<times> finding list \<Rightarrow> (string \<times> pyval) list \<Rightarrow>
   error + string option \<times> finding list" where
  "scan_files E self registry definitions_raw s [] = Inr s"
| "scan_files E self registry definitions_raw s (d # rest) =
     (case map_of definitions_raw (fst d) of
        None \<Rightarrow> Inl KeyError
      | Some raw \<Rightarrow>
          (let skipped_checks = collect_suppressions_for_context E raw;
               results = scan E registry (fst d) (snd d) skipped_checks
           in scan_files E self registry definitions_raw
                (process_results E self (fst d) raw s results) rest))"

subsection \<open>The entry point\<close>

record run_args =
  root_folder :: "string option"
  external_checks_dir :: "string list option"
  files :: "string list option"

text \<open>Truthiness of an optional list or string: \<open>None\<close> and the empty one are falsy.\<close>

definition given :: "'a list option \<Rightarrow> bool" where
  "given x = (case x of None \<Rightarrow> False | Some xs \<Rightarrow> xs \<noteq> [])"

definition empty_report :: "runner \<Rightarrow> report" where
  "empty_report self = \<lparr>report_check_type = check_type self, records = []\<rparr>"

text \<open>
  \<open>run\<close>, on the runner and the registry it imports; it gives the report, and the runner and
  the registry as it leaves them.
\<close>

definition run ::
  "('reg, 'skips) env \<Rightarrow> run_args \<Rightarrow> runner \<times> 'reg \<Rightarrow> error + report \<times> runner \<times> 'reg" where
  "run E args w =
     (let self = fst w; registry = snd w in
      if \<not> given (files args) \<and> \<not> given (root_folder args) then Inr (empty_report self, self, registry)
      else if \<not> given (external_checks_dir args) \<and> require_external_checks E then
        Inr (empty_report self, self, registry)
      else
        (let registry' =
               (if given (external_checks_dir args) then
                  fold (load_external_checks E) (the (external_checks_dir args)) registry
                else registry)
         in case (if given (files args) then load_files E (self, [], []) (the (files args)) None
                  else Inr (self, [], [])) of
              Inl e \<Rightarrow> Inl e
            | Inr s1 \<Rightarrow>
                (case (if given (root_folder args) then
                         load_walk E s1 (os_walk E (the (root_folder args)))
                       else Inr s1) of
                   Inl e \<Rightarrow> Inl e
                 | Inr s2 \<Rightarrow>
                     (case scan_files E (fst s2) registry' (snd (snd s2))
                             (root_folder args, []) (fst (snd s2)) of
                        Inl e \<Rightarrow> Inl e
                      | Inr s3 \<Rightarrow>
                          Inr (\<lparr>report_check_type = check_type self, records = snd s3\<rparr>,
                               fst s2, registry')))))"

text \<open>The triple of a finding that identifies it in a report.\<close>

definition triple :: "finding \<Rightarrow> string \<times> string \<times> int list" where
  "triple f = (check_id f, resource f, file_line_range f)"

section \<open>Notions used in the proofs\<close>

text \<open>
  The triple of the record that \<open>run\<close> builds for the result \<open>kr\<close> of the file \<open>fp\<close> with
  the check object \<open>c\<close>, the triples of the results of one scan, and the triples of a file:
  those of the scan of its parsed document.
\<close>

definition result_triple ::
  "('reg, 'skips) env \<Rightarrow> string \<Rightarrow> string \<times> raw_result \<Rightarrow> check_obj \<Rightarrow> string \<times> string \<times> int list" where
  "result_triple E fp kr c =
     (c_id c, get_resource fp (fst kr) (c_supported_entities c),
      [fst (resolve_lines E (results_configuration (snd kr))),
       snd (resolve_lines E (results_configuration (snd kr))) + 1])"

fun results_triples ::
  "('reg, 'skips) env \<Rightarrow> string \<Rightarrow> (string \<times> raw_result) list \<Rightarrow> (string \<times> string \<times> int list) list" where
  "results_triples E fp [] = []"
| "results_triples E fp (kr # rest) =
     (case check (snd kr) of
        None \<Rightarrow> results_triples E fp rest
      | Some c \<Rightarrow> result_triple E fp kr c # results_triples E fp rest)"

definition file_triples ::
  "('reg, 'skips) env \<Rightarrow> 'reg \<Rightarrow> string \<Rightarrow> (string \<times> string \<times> int list) list" where
  "file_triples E registry fp =
     (case parse_file E fp of
        None \<Rightarrow> []
      | Some p \<Rightarrow>
          results_triples E fp
            (scan E registry fp (fst p) (collect_suppressions_for_context E (snd p))))"

text \<open>
  The two dicts of \<open>run\<close> hold, for exactly the paths in \<open>K\<close>, what the parser \<open>P\<close> gives
  for the path.
\<close>

definition loaded_from ::
  "(string \<Rightarrow> parsed option) \<Rightarrow> string set \<Rightarrow> definitions \<Rightarrow> definitions_raw \<Rightarrow> bool" where
  "loaded_from P K defs raws \<longleftrightarrow>
     distinct (map fst defs) \<and> fst ` set defs = K \<and>
     (\<forall>f \<in> K. P f \<noteq> None \<and> map_of defs f = Some (fst (the (P f))) \<and>
        map_of raws f = Some (snd (the (P f))))"

text \<open>Two states of the loader with the same check type and the same loaded paths.\<close>

definition same_load ::
  "(string \<Rightarrow> parsed option) \<Rightarrow> runner \<times> definitions \<times> definitions_raw \<Rightarrow>
   runner \<times> definitions \<times> definitions_raw \<Rightarrow> bool" where
  "same_load P sA sB \<longleftrightarrow>
     check_type (fst sA) = check_type (fst sB) \<and>
     (\<exists>K. loaded_from P K (fst (snd sA)) (snd (snd sA)) \<and>
          loaded_from P K (fst (snd sB)) (snd (snd sB)))"

section \<open>A concrete instance\<close>

text \<open>
  An instance of the collaborators and of their data, on which the runner is evaluated: a
  workflow of seven lines, a check that fails on its lines 4 to 6, a second result that has
  no check object, and a file that does not parse.
\<close>

definition example_raw :: "raw_line list" where
  "example_raw =
     [(1, ''name: ci''), (2, ''on: push''), (3, ''jobs:''), (4, ''  build:''),
      (5, ''    runs-on: ubuntu''), (6, ''    steps: []''), (7, ''# end'')]"

definition example_doc :: "string \<Rightarrow> pyval" where
  "example_doc n =
     VDict [(KStr ''name'', VStr n),
            (KBool True, VDict [(KStr ''push'', VDict []), (START_LINE, VInt 2), (END_LINE, VInt 2)]),
            (KStr ''jobs'', VDict [(KStr ''build'', VDict []), (START_LINE, VInt 4), (END_LINE, VInt 6)])]"

definition example_check :: check_obj where
  "example_check =
     \<lparr>c_id = ''CKV_GHA_1'', c_bc_id = ''BC_GHA_1'', c_name = ''no shell injection'',
      c_supported_entities = [''jobs''], c_module = ''checks.job'', c_severity = ''HIGH''\<rparr>"

definition example_result :: raw_result where
  "example_result =
     \<lparr>results_configuration = VDict [(START_LINE, VInt 4), (END_LINE, VInt 6)],
      check = Some example_check, payload = VStr ''FAILED''\<rparr>"

definition example_orphan :: raw_result where
  "example_orphan = \<lparr>results_configuration = VNone, check = None, payload = VStr ''FAILED''\<rparr>"

definition example_unlocated :: raw_result where
  "example_unlocated =
     \<lparr>results_configuration = VNone, check = Some example_check, payload = VStr ''PASSED''\<rparr>"

definition example_lines :: "int \<Rightarrow> pyval \<Rightarrow> int \<Rightarrow> int \<times> int" where
  "example_lines end result_config start =
     (case (dict_get (case result_config of VDict d \<Rightarrow> d | _ \<Rightarrow> []) START_LINE,
            dict_get (case result_config of VDict d \<Rightarrow> d | _ \<Rightarrow> []) END_LINE) of
        (VInt s, VInt e) \<Rightarrow> (e, s)
      | _ \<Rightarrow> (end, start))"

definition example_env :: "(string list, string list) env" where
  "example_env =
     \<lparr>parse_file =
        (\<lambda>f. if f = ''wf/a.yml'' then Some (example_doc ''first'', example_raw)
             else if f = ''wf/b.yml'' then Some (example_doc ''second'', example_raw)
             else None),
      run_function = map,
      get_start_end_lines = example_lines,
      require_external_checks = True,
      load_external_checks = (\<lambda>d reg. if d \<in> set reg then reg else reg @ [d]),
      scan =
        (\<lambda>reg fp doc skipped.
           if fp = ''wf/a.yml'' then [(''jobs.build'', example_result), (''jobs.none'', example_orphan)]
           else []),
      collect_suppressions_for_context = (\<lambda>raw. []),
      os_walk = (\<lambda>root. [(root, [], [''a.yml'', ''broken.yml''])]),
      filter_ignored_paths = (\<lambda>root names. names),
      path_join = (\<lambda>root f. root @ ''/'' @ f),
      relpath = (\<lambda>fp root. drop (case root of None \<Rightarrow> 0 | Some r \<Rightarrow> length r + 1) fp),
      abspath = (\<lambda>fp. ''/repo/'' @ fp),
      path_split_head = (\<lambda>fp. ''wf''),
      platform_system = ''Linux''\<rparr>"

definition example_runner :: runner where
  "example_runner =
     \<lparr>check_type = GITHUB_ACTIONS, workflow_name = VNone, jobs = None, triggers = None\<rparr>"

definition example_args :: run_args where
  "example_args =
     \<lparr>root_folder = Some ''wf'', external_checks_dir = Some [''extra''], files = None\<rparr>"

section \<open>Properties of the structural extractor\<close>

lemma markers_distinct: "START_LINE \<noteq> END_LINE"
  by (simp add: START_LINE_def END_LINE_def)

lemma jobs_loop_append:
  "jobs_loop s (xs @ ys) = (case jobs_loop s xs of Inl e \<Rightarrow> Inl e | Inr s' \<Rightarrow> jobs_loop s' ys)"
  by (induction xs arbitrary: s) (auto split: sum.splits)

lemma jobs_step_unit:
  "\<not> is_marker k \<Longrightarrow> jobs_step (jd, tk) (k, v) = Inr (AList.update k [] jd, k)"
  by (simp add: jobs_step_def is_marker_def)

lemma jobs_step_marker:
  "is_marker m \<Longrightarrow> jobs_step (jd, tk) (m, v) =
     (case map_of jd tk of None \<Rightarrow> Inl KeyError
      | Some bag \<Rightarrow> Inr (AList.update tk (AList.update m v bag) jd, tk))"
  using markers_distinct
  by (auto simp: jobs_step_def is_marker_def set_marker_def split: option.splits)

lemma jobs_loop_total:
  "map_of jd tk \<noteq> None \<Longrightarrow> \<exists>jd' tk'. jobs_loop (jd, tk) items = Inr (jd', tk') \<and> map_of jd' tk' \<noteq> None"
proof (induction items arbitrary: jd tk)
  case Nil then show ?case by simp
next
  case (Cons item items)
  obtain k v where item: "item = (k, v)" by (cases item)
  show ?case
  proof (cases "is_marker k")
    case True
    from Cons.prems obtain bag where bag: "map_of jd tk = Some bag" by auto
    have "map_of (AList.update tk (AList.update k v bag) jd) tk \<noteq> None"
      by (simp add: update_conv')
    from Cons.IH[OF this] show ?thesis
      by (simp add: item jobs_step_marker True bag)
  next
    case False
    have "map_of (AList.update k [] jd) k \<noteq> None" by (simp add: update_conv')
    from Cons.IH[OF this] show ?thesis
      by (simp add: item jobs_step_unit False)
  qed
qed

lemma jobs_loop_markers:
  "\<forall>m \<in> fst ` set ms. is_marker m \<Longrightarrow> map_of jd k = Some bag \<Longrightarrow>
   \<exists>jd' bag'. jobs_loop (jd, k) ms = Inr (jd', k) \<and> map_of jd' k = Some bag' \<and>
      map_of bag' = map_of bag ++ map_of (rev ms) \<and> (\<forall>k'. k' \<noteq> k \<longrightarrow> map_of jd' k' = map_of jd k')"
proof (induction ms arbitrary: jd bag)
  case Nil then show ?case by simp
next
  case (Cons item ms)
  obtain m v where item: "item = (m, v)" by (cases item)
  with Cons.prems have mk: "is_marker m" and rest: "\<forall>m \<in> fst ` set ms. is_marker m" by auto
  let ?jd = "AList.update k (AList.update m v bag) jd"
  have "map_of ?jd k = Some (AList.update m v bag)" by (simp add: update_conv')
  from Cons.IH[OF rest this] obtain jd' bag' where
    l: "jobs_loop (?jd, k) ms = Inr (jd', k)" and b: "map_of jd' k = Some bag'"
    and e: "map_of bag' = map_of (AList.update m v bag) ++ map_of (rev ms)"
    and o: "\<forall>k'. k' \<noteq> k \<longrightarrow> map_of jd' k' = map_of ?jd k'" by blast
  have "map_of bag' = map_of bag ++ map_of (rev (item # ms))"
    by (simp add: e item update_conv' map_add_def fun_eq_iff split: option.splits)
  moreover have "\<forall>k'. k' \<noteq> k \<longrightarrow> map_of jd' k' = map_of jd k'"
    using o by (simp add: update_conv')
  ultimately show ?case using l b
    by (simp add: item jobs_step_marker mk Cons.prems(2))
qed

lemma jobs_loop_preserves:
  "tk \<noteq> k \<Longrightarrow> k \<notin> fst ` set rest \<Longrightarrow> jobs_loop (jd, tk) rest = Inr (jd', tk') \<Longrightarrow>
   map_of jd' k = map_of jd k"
proof (induction rest arbitrary: jd tk)
  case Nil then show ?case by simp
next
  case (Cons item rest)
  obtain k2 v where item: "item = (k2, v)" by (cases item)
  with Cons.prems have k2: "k2 \<noteq> k" and nk: "k \<notin> fst ` set rest" by auto
  show ?case
  proof (cases "is_marker k2")
    case True
    with Cons.prems(3) obtain bag where bag: "map_of jd tk = Some bag"
      and l: "jobs_loop (AList.update tk (AList.update k2 v bag) jd, tk) rest = Inr (jd', tk')"
      by (auto simp: item jobs_step_marker split: option.splits)
    from Cons.IH[OF Cons.prems(1) nk l] show ?thesis
      using Cons.prems(1) by (simp add: update_conv')
  next
    case False
    with Cons.prems(3) have l: "jobs_loop (AList.update k2 [] jd, k2) rest = Inr (jd', tk')"
      by (simp add: item jobs_step_unit)
    from Cons.IH[OF k2 nk l] show ?thesis using k2 by (simp add: update_conv')
  qed
qed

lemma jobs_loop_keys:
  "jobs_loop (jd, tk) items = Inr (jd', tk') \<Longrightarrow>
   fst ` set jd' = fst ` set jd \<union> {k \<in> fst ` set items. \<not> is_marker k}"
proof (induction items arbitrary: jd tk)
  case Nil then show ?case by simp
next
  case (Cons item items)
  obtain k v where item: "item = (k, v)" by (cases item)
  show ?case
  proof (cases "is_marker k")
    case True
    with Cons.prems obtain bag where bag: "map_of jd tk = Some bag"
      and l: "jobs_loop (AList.update tk (AList.update k v bag) jd, tk) items = Inr (jd', tk')"
      by (auto simp: item jobs_step_marker split: option.splits)
    from bag have "tk \<in> fst ` set jd" by (metis map_of_eq_None_iff option.distinct(1))
    with Cons.IH[OF l] True show ?thesis by (auto simp: item dom_update)
  next
    case False
    with Cons.prems have l: "jobs_loop (AList.update k [] jd, k) items = Inr (jd', tk')"
      by (simp add: item jobs_step_unit)
    from Cons.IH[OF l] False show ?thesis by (auto simp: item dom_update)
  qed
qed

lemma jobs_loop_first_unit:
  assumes "items = [] \<or> \<not> is_marker (fst (hd items))"
  shows "\<exists>jd tk. jobs_loop ([], KStr []) items = Inr (jd, tk)"
proof (cases items)
  case Nil then show ?thesis by simp
next
  case (Cons item rest)
  obtain k v where item: "item = (k, v)" by (cases item)
  with assms Cons have nm: "\<not> is_marker k" by simp
  have "map_of (AList.update k [] []) k \<noteq> None" by simp
  from jobs_loop_total[OF this, of rest] show ?thesis
    by (auto simp: Cons item jobs_step_unit nm)
qed

lemma get_jobs_dict:
  "map_of d (KStr ''jobs'') = Some (VDict items) \<Longrightarrow>
   get_jobs (VDict d, raw) =
     (if items = [] then Inr []
      else case jobs_loop ([], KStr []) items of Inl e \<Rightarrow> Inl e | Inr s \<Rightarrow> Inr (fst s))"
  by (simp add: get_jobs_def dict_get_def)

lemma get_jobs_attributes:
  assumes d: "map_of d (KStr ''jobs'') = Some (VDict (pre @ (k, v) # ms @ rest))"
    and pre: "pre = [] \<or> \<not> is_marker (fst (hd pre))"
    and k: "\<not> is_marker k"
    and ms: "\<forall>m \<in> fst ` set ms. is_marker m"
    and rest: "rest = [] \<or> \<not> is_marker (fst (hd rest))"
    and nk: "k \<notin> fst ` set rest"
  shows "\<exists>jd bag. get_jobs (VDict d, raw) = Inr jd \<and> map_of jd k = Some bag \<and>
       map_of bag = map_of (rev ms)"
proof -
  from jobs_loop_first_unit[OF pre] obtain jd0 tk0 where
    p: "jobs_loop ([], KStr []) pre = Inr (jd0, tk0)" by blast
  let ?jd1 = "AList.update k [] jd0"
  have m1: "map_of ?jd1 k = Some []" by (simp add: update_conv')
  from jobs_loop_markers[OF ms m1] obtain jd2 bag where
    l2: "jobs_loop (?jd1, k) ms = Inr (jd2, k)" and b2: "map_of jd2 k = Some bag"
    and e2: "map_of bag = map_of (rev ms)" by auto
  have "\<exists>jd3 tk3. jobs_loop (jd2, k) rest = Inr (jd3, tk3) \<and> map_of jd3 k = Some bag"
  proof (cases rest)
    case Nil then show ?thesis using b2 by simp
  next
    case (Cons item rest')
    obtain k2 v2 where item: "item = (k2, v2)" by (cases item)
    from rest nk Cons item have nm: "\<not> is_marker k2" and ne: "k2 \<noteq> k"
      and nk': "k \<notin> fst ` set rest'" by auto
    let ?jd = "AList.update k2 [] jd2"
    have "map_of ?jd k2 \<noteq> None" by (simp add: update_conv')
    from jobs_loop_total[OF this, of rest'] obtain jd3 tk3 where
      l3: "jobs_loop (?jd, k2) rest' = Inr (jd3, tk3)" by blast
    from jobs_loop_preserves[OF ne nk' l3] have "map_of jd3 k = Some bag"
      using ne b2 by (simp add: update_conv')
    then show ?thesis using l3 by (simp add: Cons item jobs_step_unit nm)
  qed
  then obtain jd3 tk3 where l3: "jobs_loop (jd2, k) rest = Inr (jd3, tk3)"
    and b3: "map_of jd3 k = Some bag" by blast
  have "jobs_loop ([], KStr []) (pre @ (k, v) # ms @ rest) = Inr (jd3, tk3)"
    using k p l2 l3 by (simp add: jobs_loop_append jobs_step_unit)
  with d b3 e2 show ?thesis by (simp add: get_jobs_dict)
qed

lemma jobs_loop_marker_first:
  assumes "items \<noteq> []" and "is_marker (fst (hd items))"
  shows "jobs_loop ([], KStr []) items = Inl KeyError"
proof -
  from assms obtain m v rest where i: "items = (m, v) # rest" and m: "is_marker m"
    by (cases items) auto
  from m have "jobs_step ([], KStr []) (m, v) = Inl KeyError"
    by (simp add: jobs_step_marker)
  with i show ?thesis by simp
qed

text \<open>
  Claim C4. When the items of the jobs mapping are, in this order, \<open>"build"\<close>, \<open>START_LINE\<close> 3,
  \<open>END_LINE\<close> 5, \<open>"test"\<close>, \<open>START_LINE\<close> 7, \<open>END_LINE\<close> 9, then \<open>_get_jobs\<close> returns
  \<open>build\<close> with the lines 3 and 5 and \<open>test\<close> with the lines 7 and 9. In general a marker
  goes to the unit started last: when the mapping starts with a unit key, the entry of a
  unit \<open>k\<close> holds exactly the values of the markers \<open>ms\<close> that stand between \<open>k\<close> and the next
  unit key (for a marker that occurs twice, the later value), as long as \<open>k\<close> is not started
  again later.
\<close>

theorem get_jobs_attribution:
  "(map_of d (KStr ''jobs'') =
      Some (VDict [(KStr ''build'', VDict []), (START_LINE, VInt 3), (END_LINE, VInt 5),
                   (KStr ''test'', VDict []), (START_LINE, VInt 7), (END_LINE, VInt 9)]) \<longrightarrow>
    get_jobs (VDict d, raw) =
      Inr [(KStr ''build'', [(START_LINE, VInt 3), (END_LINE, VInt 5)]),
           (KStr ''test'', [(START_LINE, VInt 7), (END_LINE, VInt 9)])]) \<and>
   (map_of d (KStr ''jobs'') = Some (VDict (pre @ (k, v) # ms @ rest)) \<and>
    (pre = [] \<or> \<not> is_marker (fst (hd pre))) \<and>
    \<not> is_marker k \<and> (\<forall>m \<in> fst ` set ms. is_marker m) \<and>
    (rest = [] \<or> \<not> is_marker (fst (hd rest))) \<and> k \<notin> fst ` set rest \<longrightarrow>
    (\<exists>jd bag. get_jobs (VDict d, raw) = Inr jd \<and> map_of jd k = Some bag \<and>
       map_of bag = map_of (rev ms)))"
proof (intro conjI impI)
  assume "map_of d (KStr ''jobs'') =
      Some (VDict [(KStr ''build'', VDict []), (START_LINE, VInt 3), (END_LINE, VInt 5),
                   (KStr ''test'', VDict []), (START_LINE, VInt 7), (END_LINE, VInt 9)])"
  then show "get_jobs (VDict d, raw) =
      Inr [(KStr ''build'', [(START_LINE, VInt 3), (END_LINE, VInt 5)]),
           (KStr ''test'', [(START_LINE, VInt 7), (END_LINE, VInt 9)])]"
    by (simp add: get_jobs_dict jobs_step_def set_marker_def START_LINE_def END_LINE_def Let_def)
next
  assume a: "map_of d (KStr ''jobs'') = Some (VDict (pre @ (k, v) # ms @ rest)) \<and>
    (pre = [] \<or> \<not> is_marker (fst (hd pre))) \<and>
    \<not> is_marker k \<and> (\<forall>m \<in> fst ` set ms. is_marker m) \<and>
    (rest = [] \<or> \<not> is_marker (fst (hd rest))) \<and> k \<notin> fst ` set rest"
  then have d: "map_of d (KStr ''jobs'') = Some (VDict (pre @ (k, v) # ms @ rest))"
    and pre: "pre = [] \<or> \<not> is_marker (fst (hd pre))"
    and k: "\<not> is_marker k" and ms: "\<forall>m \<in> fst ` set ms. is_marker m"
    and rest: "rest = [] \<or> \<not> is_marker (fst (hd rest))" and nk: "k \<notin> fst ` set rest"
    by blast+
  from d pre k ms rest nk
  show "\<exists>jd bag. get_jobs (VDict d, raw) = Inr jd \<and> map_of jd k = Some bag \<and>
       map_of bag = map_of (rev ms)"
    by (rule get_jobs_attributes)
qed

text \<open>The theorem at a workflow with the two jobs of the claim, for the unit \<open>build\<close>.\<close>

theorem get_jobs_attribution_witness:
  "get_jobs (VDict [(KStr ''name'', VStr ''ci''),
       (KStr ''jobs'', VDict [(KStr ''build'', VDict []), (START_LINE, VInt 3), (END_LINE, VInt 5),
                   (KStr ''test'', VDict []), (START_LINE, VInt 7), (END_LINE, VInt 9)])], []) =
      Inr [(KStr ''build'', [(START_LINE, VInt 3), (END_LINE, VInt 5)]),
           (KStr ''test'', [(START_LINE, VInt 7), (END_LINE, VInt 9)])] \<and>
   (\<exists>jd bag. get_jobs (VDict [(KStr ''name'', VStr ''ci''),
       (KStr ''jobs'', VDict [(KStr ''build'', VDict []), (START_LINE, VInt 3), (END_LINE, VInt 5),
                   (KStr ''test'', VDict []), (START_LINE, VInt 7), (END_LINE, VInt 9)])], []) = Inr jd \<and>
      map_of jd (KStr ''build'') = Some bag \<and>
      map_of bag = map_of (rev [(START_LINE, VInt 3), (END_LINE, VInt 5)]))"
proof -
  let ?d = "[(KStr ''name'', VStr ''ci''),
       (KStr ''jobs'', VDict [(KStr ''build'', VDict []), (START_LINE, VInt 3), (END_LINE, VInt 5),
                   (KStr ''test'', VDict []), (START_LINE, VInt 7), (END_LINE, VInt 9)])]"
  let ?ms = "[(START_LINE, VInt 3), (END_LINE, VInt 5)]"
  let ?rest = "[(KStr ''test'', VDict []), (START_LINE, VInt 7), (END_LINE, VInt 9)]"
  have h1: "map_of ?d (KStr ''jobs'') =
      Some (VDict [(KStr ''build'', VDict []), (START_LINE, VInt 3), (END_LINE, VInt 5),
                   (KStr ''test'', VDict []), (START_LINE, VInt 7), (END_LINE, VInt 9)])"
    by simp
  have h2: "map_of ?d (KStr ''jobs'') = Some (VDict ([] @ (KStr ''build'', VDict []) # ?ms @ ?rest)) \<and>
    ([] = [] \<or> \<not> is_marker (fst (hd ([] :: (pykey \<times> pyval) list)))) \<and>
    \<not> is_marker (KStr ''build'') \<and> (\<forall>m \<in> fst ` set ?ms. is_marker m) \<and>
    (?rest = [] \<or> \<not> is_marker (fst (hd ?rest))) \<and> KStr ''build'' \<notin> fst ` set ?rest"
    by (simp add: is_marker_def START_LINE_def END_LINE_def)
  from get_jobs_attribution [of ?d "[]" "[]" "KStr ''build''" "VDict []" ?ms ?rest] h1 h2
  show ?thesis by blast
qed

text \<open>
  Claim C6. For a document that is a mapping, \<open>_get_triggers\<close> returns the keys of the
  mapping stored under the key \<open>True\<close> without the two line markers; without the key \<open>True\<close>
  it returns the empty set. For \<open>True \<rightarrow> {"push": {...}, START_LINE: 1, END_LINE: 2}\<close> the set
  is \<open>{"push"}\<close>.
\<close>

theorem get_triggers_keys:
  "(map_of d (KBool True) = Some (VDict t) \<longrightarrow>
      get_triggers (VDict d, raw) = Inr (fst ` set t - {START_LINE, END_LINE})) \<and>
   (map_of d (KBool True) = None \<longrightarrow> get_triggers (VDict d, raw) = Inr {}) \<and>
   get_triggers (VDict [(KBool True,
       VDict [(KStr ''push'', VDict [(KStr ''branches'', VList [VStr ''main''])]),
              (START_LINE, VInt 1), (END_LINE, VInt 2)])], raw) = Inr {KStr ''push''}"
  by (auto simp: get_triggers_def get_triggers_try_def dict_get_def START_LINE_def END_LINE_def)

text \<open>The theorem at a workflow with two triggers, and at one without the key.\<close>

theorem get_triggers_keys_witness:
  "get_triggers (VDict [(KStr ''name'', VStr ''ci''), (KBool True,
       VDict [(KStr ''push'', VDict []), (KStr ''pull_request'', VDict []),
              (START_LINE, VInt 1), (END_LINE, VInt 2)])], []) =
     Inr {KStr ''push'', KStr ''pull_request''} \<and>
   get_triggers (VDict [(KStr ''name'', VStr ''ci'')], []) = Inr {}"
  using get_triggers_keys [of "[(KStr ''name'', VStr ''ci''), (KBool True,
       VDict [(KStr ''push'', VDict []), (KStr ''pull_request'', VDict []),
              (START_LINE, VInt 1), (END_LINE, VInt 2)])]"
       "[(KStr ''push'', VDict []), (KStr ''pull_request'', VDict []),
              (START_LINE, VInt 1), (END_LINE, VInt 2)]" "[]"]
    get_triggers_keys [of "[(KStr ''name'', VStr ''ci'')]" "[]" "[]"]
  by (auto simp: START_LINE_def END_LINE_def)

text \<open>
  Claim C7. For every document that is a mapping, \<open>_get_triggers\<close> returns a set and raises
  nothing; whenever deriving the set from the value under \<open>True\<close> raises (the value is
  truthy and has no \<open>keys\<close>), the extractor returns the empty set.
\<close>

theorem get_triggers_catches:
  "(\<exists>s. get_triggers (VDict d, raw) = Inr s) \<and>
   (get_triggers_try (dict_get d (KBool True)) = Inl e \<longrightarrow> get_triggers (VDict d, raw) = Inr {})"
  by (auto simp: get_triggers_def split: sum.splits)

text \<open>The theorem at \<open>on: push\<close>, where the value under \<open>True\<close> is a string.\<close>

theorem get_triggers_catches_witness:
  "get_triggers_try (dict_get [(KBool True, VStr ''push'')] (KBool True)) = Inl AttributeError \<and>
   get_triggers (VDict [(KBool True, VStr ''push'')], []) = Inr {}"
  using get_triggers_catches [of "[(KBool True, VStr ''push'')]" "[]" AttributeError]
  by (simp add: get_triggers_try_def dict_get_def)

text \<open>
  Against claim C9 as stated: a jobs mapping that starts with a line marker. The subscript
  \<open>jobs_dict[tmp_key]\<close> with the initial \<open>tmp_key = ""\<close> raises \<open>KeyError\<close>.
\<close>

theorem get_jobs_marker_first_counterexample:
  "get_jobs (VDict [(KStr ''jobs'', VDict [(START_LINE, VInt 1), (KStr ''build'', VDict [])])], []) =
     Inl KeyError"
  by (simp add: get_jobs_def dict_get_def jobs_step_def set_marker_def START_LINE_def END_LINE_def)

text \<open>
  Claim C9, amended. For every jobs mapping in which a line marker stands before any unit
  key, that is, whose first key is \<open>START_LINE\<close> or \<open>END_LINE\<close>, \<open>_get_jobs\<close> does not
  complete: the subscript \<open>jobs_dict[tmp_key]\<close> raises \<open>KeyError\<close>, and no mapping is returned.
  For every other jobs mapping it completes, the keys of the mapping it returns are exactly
  the unit keys, and every marker is attributed to the unit started last: the entry of a
  unit holds exactly the values of the markers that stand between its key and the next unit
  key, as long as the unit is not started again later.
\<close>

theorem get_jobs_marker_before_unit:
  "map_of d (KStr ''jobs'') = Some (VDict items) \<Longrightarrow>
   (items \<noteq> [] \<and> is_marker (fst (hd items)) \<longrightarrow> get_jobs (VDict d, raw) = Inl KeyError) \<and>
   (items = [] \<or> \<not> is_marker (fst (hd items)) \<longrightarrow>
      (\<exists>jd. get_jobs (VDict d, raw) = Inr jd \<and>
         fst ` set jd = {k \<in> fst ` set items. \<not> is_marker k} \<and>
         (\<forall>pre k v ms rest.
            items = pre @ (k, v) # ms @ rest \<and> \<not> is_marker k \<and>
            (\<forall>m \<in> fst ` set ms. is_marker m) \<and>
            (rest = [] \<or> \<not> is_marker (fst (hd rest))) \<and> k \<notin> fst ` set rest \<longrightarrow>
            (\<exists>bag. map_of jd k = Some bag \<and> map_of bag = map_of (rev ms)))))"
proof -
  assume d: "map_of d (KStr ''jobs'') = Some (VDict items)"
  have 1: "items \<noteq> [] \<and> is_marker (fst (hd items)) \<longrightarrow> get_jobs (VDict d, raw) = Inl KeyError"
  proof
    assume a: "items \<noteq> [] \<and> is_marker (fst (hd items))"
    then have "jobs_loop ([], KStr []) items = Inl KeyError"
      by (simp add: jobs_loop_marker_first)
    with d a show "get_jobs (VDict d, raw) = Inl KeyError" by (simp add: get_jobs_dict)
  qed
  have 2: "items = [] \<or> \<not> is_marker (fst (hd items)) \<longrightarrow>
      (\<exists>jd. get_jobs (VDict d, raw) = Inr jd \<and>
         fst ` set jd = {k \<in> fst ` set items. \<not> is_marker k} \<and>
         (\<forall>pre k v ms rest.
            items = pre @ (k, v) # ms @ rest \<and> \<not> is_marker k \<and>
            (\<forall>m \<in> fst ` set ms. is_marker m) \<and>
            (rest = [] \<or> \<not> is_marker (fst (hd rest))) \<and> k \<notin> fst ` set rest \<longrightarrow>
            (\<exists>bag. map_of jd k = Some bag \<and> map_of bag = map_of (rev ms))))"
  proof
    assume f: "items = [] \<or> \<not> is_marker (fst (hd items))"
    from jobs_loop_first_unit[OF f] obtain jd tk where
      l: "jobs_loop ([], KStr []) items = Inr (jd, tk)" by blast
    from l d have g: "get_jobs (VDict d, raw) = Inr jd" by (auto simp: get_jobs_dict)
    from jobs_loop_keys[OF l] have ks: "fst ` set jd = {k \<in> fst ` set items. \<not> is_marker k}"
      by simp
    have at: "\<forall>pre k v ms rest.
            items = pre @ (k, v) # ms @ rest \<and> \<not> is_marker k \<and>
            (\<forall>m \<in> fst ` set ms. is_marker m) \<and>
            (rest = [] \<or> \<not> is_marker (fst (hd rest))) \<and> k \<notin> fst ` set rest \<longrightarrow>
            (\<exists>bag. map_of jd k = Some bag \<and> map_of bag = map_of (rev ms))"
    proof (intro allI impI)
      fix pre k v ms rest
      assume a: "items = pre @ (k, v) # ms @ rest \<and> \<not> is_marker k \<and>
            (\<forall>m \<in> fst ` set ms. is_marker m) \<and>
            (rest = [] \<or> \<not> is_marker (fst (hd rest))) \<and> k \<notin> fst ` set rest"
      from a f have pre: "pre = [] \<or> \<not> is_marker (fst (hd pre))" by (cases pre) auto
      from a d have d': "map_of d (KStr ''jobs'') = Some (VDict (pre @ (k, v) # ms @ rest))"
        by simp
      from a have k: "\<not> is_marker k" and ms: "\<forall>m \<in> fst ` set ms. is_marker m"
        and rest: "rest = [] \<or> \<not> is_marker (fst (hd rest))" and nk: "k \<notin> fst ` set rest"
        by blast+
      from get_jobs_attributes[OF d' pre k ms rest nk, of raw] g
      show "\<exists>bag. map_of jd k = Some bag \<and> map_of bag = map_of (rev ms)" by auto
    qed
    from g ks at show "\<exists>jd. get_jobs (VDict d, raw) = Inr jd \<and>
         fst ` set jd = {k \<in> fst ` set items. \<not> is_marker k} \<and>
         (\<forall>pre k v ms rest.
            items = pre @ (k, v) # ms @ rest \<and> \<not> is_marker k \<and>
            (\<forall>m \<in> fst ` set ms. is_marker m) \<and>
            (rest = [] \<or> \<not> is_marker (fst (hd rest))) \<and> k \<notin> fst ` set rest \<longrightarrow>
            (\<exists>bag. map_of jd k = Some bag \<and> map_of bag = map_of (rev ms)))" by blast
  qed
  from 1 2 show ?thesis by blast
qed

text \<open>
  The theorem at a jobs mapping that holds the two markers only, and at one with a job
  followed by its two markers.
\<close>

theorem get_jobs_marker_before_unit_witness:
  "get_jobs (VDict [(KStr ''jobs'', VDict [(START_LINE, VInt 1), (END_LINE, VInt 2)])], []) =
     Inl KeyError \<and>
   (\<exists>jd. get_jobs (VDict [(KStr ''jobs'', VDict [(KStr ''build'', VDict []),
            (START_LINE, VInt 3), (END_LINE, VInt 5)])], []) = Inr jd \<and>
      fst ` set jd = {k \<in> fst ` set [(KStr ''build'', VDict []), (START_LINE, VInt 3),
            (END_LINE, VInt 5)]. \<not> is_marker k} \<and>
      (\<exists>bag. map_of jd (KStr ''build'') = Some bag \<and>
         map_of bag = map_of (rev [(START_LINE, VInt 3), (END_LINE, VInt 5)])))"
proof -
  let ?bad = "[(START_LINE, VInt 1), (END_LINE, VInt 2)]"
  let ?ms = "[(START_LINE, VInt 3), (END_LINE, VInt 5)]"
  let ?good = "[(KStr ''build'', VDict []), (START_LINE, VInt 3), (END_LINE, VInt 5)]"
  have b1: "map_of [(KStr ''jobs'', VDict ?bad)] (KStr ''jobs'') = Some (VDict ?bad)" by simp
  have b2: "?bad \<noteq> [] \<and> is_marker (fst (hd ?bad))" by (simp add: is_marker_def)
  have g1: "map_of [(KStr ''jobs'', VDict ?good)] (KStr ''jobs'') = Some (VDict ?good)" by simp
  have g2: "?good = [] \<or> \<not> is_marker (fst (hd ?good))"
    by (simp add: is_marker_def START_LINE_def END_LINE_def)
  have g3: "?good = [] @ (KStr ''build'', VDict []) # ?ms @ [] \<and> \<not> is_marker (KStr ''build'') \<and>
            (\<forall>m \<in> fst ` set ?ms. is_marker m) \<and>
            ([] = [] \<or> \<not> is_marker (fst (hd ([] :: (pykey \<times> pyval) list)))) \<and>
            KStr ''build'' \<notin> fst ` set ([] :: (pykey \<times> pyval) list)"
    by (simp add: is_marker_def START_LINE_def END_LINE_def)
  from get_jobs_marker_before_unit [OF b1, of "[]"]
  have "?bad \<noteq> [] \<and> is_marker (fst (hd ?bad)) \<longrightarrow>
      get_jobs (VDict [(KStr ''jobs'', VDict ?bad)], []) = Inl KeyError"
    by (rule conjunct1)
  from this b2 have w1: "get_jobs (VDict [(KStr ''jobs'', VDict ?bad)], []) = Inl KeyError"
    by (rule mp)
  from get_jobs_marker_before_unit [OF g1, of "[]"]
  have "?good = [] \<or> \<not> is_marker (fst (hd ?good)) \<longrightarrow>
      (\<exists>jd. get_jobs (VDict [(KStr ''jobs'', VDict ?good)], []) = Inr jd \<and>
         fst ` set jd = {k \<in> fst ` set ?good. \<not> is_marker k} \<and>
         (\<forall>pre k v ms rest.
            ?good = pre @ (k, v) # ms @ rest \<and> \<not> is_marker k \<and>
            (\<forall>m \<in> fst ` set ms. is_marker m) \<and>
            (rest = [] \<or> \<not> is_marker (fst (hd rest))) \<and> k \<notin> fst ` set rest \<longrightarrow>
            (\<exists>bag. map_of jd k = Some bag \<and> map_of bag = map_of (rev ms))))"
    by (rule conjunct2)
  from this g2 have "\<exists>jd. get_jobs (VDict [(KStr ''jobs'', VDict ?good)], []) = Inr jd \<and>
         fst ` set jd = {k \<in> fst ` set ?good. \<not> is_marker k} \<and>
         (\<forall>pre k v ms rest.
            ?good = pre @ (k, v) # ms @ rest \<and> \<not> is_marker k \<and>
            (\<forall>m \<in> fst ` set ms. is_marker m) \<and>
            (rest = [] \<or> \<not> is_marker (fst (hd rest))) \<and> k \<notin> fst ` set rest \<longrightarrow>
            (\<exists>bag. map_of jd k = Some bag \<and> map_of bag = map_of (rev ms)))"
    by (rule mp)
  then obtain jd where
    j: "get_jobs (VDict [(KStr ''jobs'', VDict ?good)], []) = Inr jd"
    and ks: "fst ` set jd = {k \<in> fst ` set ?good. \<not> is_marker k}"
    and at: "\<forall>pre k v ms rest.
            ?good = pre @ (k, v) # ms @ rest \<and> \<not> is_marker k \<and>
            (\<forall>m \<in> fst ` set ms. is_marker m) \<and>
            (rest = [] \<or> \<not> is_marker (fst (hd rest))) \<and> k \<notin> fst ` set rest \<longrightarrow>
            (\<exists>bag. map_of jd k = Some bag \<and> map_of bag = map_of (rev ms))"
    by (elim exE conjE)
  from at[rule_format, OF g3]
  have bag: "\<exists>bag. map_of jd (KStr ''build'') = Some bag \<and> map_of bag = map_of (rev ?ms)" .
  from j ks bag have "\<exists>jd. get_jobs (VDict [(KStr ''jobs'', VDict ?good)], []) = Inr jd \<and>
      fst ` set jd = {k \<in> fst ` set ?good. \<not> is_marker k} \<and>
      (\<exists>bag. map_of jd (KStr ''build'') = Some bag \<and> map_of bag = map_of (rev ?ms))"
    by (intro exI[of _ jd] conjI)
  with w1 show ?thesis by (rule conjI)
qed

section \<open>Properties of the loader\<close>

lemma load_results_append:
  "load_results s (xs @ ys) =
     (case load_results s xs of Inl e \<Rightarrow> Inl e | Inr s' \<Rightarrow> load_results s' ys)"
  by (induction xs arbitrary: s) (auto split: sum.splits)

lemma load_step_check_type:
  "load_step s fr = Inr s' \<Longrightarrow> check_type (fst s') = check_type (fst s)"
  by (auto simp: load_step_def Let_def split: option.splits if_splits sum.splits)

lemma load_results_check_type:
  "load_results s rs = Inr s' \<Longrightarrow> check_type (fst s') = check_type (fst s)"
proof (induction rs arbitrary: s)
  case Nil then show ?case by simp
next
  case (Cons fr rs)
  then show ?case by (auto split: sum.splits dest: load_step_check_type)
qed

lemma load_step_metadata:
  "check_type (fst s) = GITHUB_ACTIONS \<Longrightarrow> load_step s (f, Some result) = Inr s' \<Longrightarrow>
   py_get (fst result) (KStr ''name'') = Inr (workflow_name (fst s')) \<and>
   map_option Inr (jobs (fst s')) = Some (get_jobs result) \<and>
   map_option Inr (triggers (fst s')) = Some (get_triggers result)"
  by (auto simp: load_step_def Let_def split: sum.splits)

lemma load_results_last:
  "check_type (fst s) = GITHUB_ACTIONS \<Longrightarrow> load_results s rs = Inr s' \<Longrightarrow>
   filter (\<lambda>p. p \<noteq> None) (map snd rs) = ps @ [Some result] \<Longrightarrow>
   py_get (fst result) (KStr ''name'') = Inr (workflow_name (fst s')) \<and>
   map_option Inr (jobs (fst s')) = Some (get_jobs result) \<and>
   map_option Inr (triggers (fst s')) = Some (get_triggers result)"
proof (induction rs arbitrary: s' ps rule: rev_induct)
  case Nil then show ?case by simp
next
  case (snoc fr rs)
  from snoc.prems(2) obtain s1 where l: "load_results s rs = Inr s1"
    and st: "load_step s1 fr = Inr s'"
    by (auto simp: load_results_append split: sum.splits)
  obtain f p where fr: "fr = (f, p)" by (cases fr)
  show ?case
  proof (cases p)
    case None
    with st fr have "s' = s1" by (simp add: load_step_def)
    moreover from None fr snoc.prems(3)
    have "filter (\<lambda>p. p \<noteq> None) (map snd rs) = ps @ [Some result]" by simp
    ultimately show ?thesis using snoc.IH[OF snoc.prems(1) l] l by simp
  next
    case (Some r)
    with fr snoc.prems(3) have "r = result" by simp
    moreover from load_results_check_type[OF l] snoc.prems(1)
    have "check_type (fst s1) = GITHUB_ACTIONS" by simp
    ultimately show ?thesis using load_step_metadata st fr Some by blast
  qed
qed

text \<open>
  Against claim C1 as stated: two workflows parse, named \<open>first\<close> and \<open>second\<close>; after
  \<open>_load_files\<close> the runner holds the name of the second one.
\<close>

theorem load_files_first_counterexample:
  "load_files example_env (example_runner, [], []) [''wf/a.yml'', ''wf/b.yml''] None =
     Inr (\<lparr>check_type = GITHUB_ACTIONS, workflow_name = VStr ''second'',
           jobs = Some [(KStr ''build'', [(START_LINE, VInt 4), (END_LINE, VInt 6)])],
           triggers = Some {KStr ''push''}\<rparr>,
          [(''wf/a.yml'', example_doc ''first''), (''wf/b.yml'', example_doc ''second'')],
          [(''wf/a.yml'', example_raw), (''wf/b.yml'', example_raw)]) \<and>
   py_get (example_doc ''first'') (KStr ''name'') = Inr (VStr ''first'')"
  by (simp add: load_files_def example_env_def example_runner_def load_step_def Let_def
      example_doc_def get_jobs_def get_triggers_def get_triggers_try_def dict_get_def
      jobs_step_def set_marker_def START_LINE_def END_LINE_def)

text \<open>
  Claim C1, amended. When the check type is \<open>GITHUB_ACTIONS\<close> and \<open>_load_files\<close> completes
  on a list of paths with at least one parsed document, the run metadata of the runner
  (\<open>workflow_name\<close>, \<open>jobs\<close>, \<open>triggers\<close>) is the one extracted from the last parsed document
  among the results of the call, in the order in which the results are iterated.
\<close>

theorem load_files_records_last:
  "check_type self = GITHUB_ACTIONS \<Longrightarrow>
   load_files E (self, defs, raws) files_to_load filename_fn = Inr (self', defs', raws') \<Longrightarrow>
   filter (\<lambda>p. p \<noteq> None)
     (map snd (run_function E (\<lambda>f. (f, parse_file E f))
        (map (\<lambda>file. case filename_fn of Some fn \<Rightarrow> fn file | None \<Rightarrow> file) files_to_load))) =
     ps @ [Some result] \<Longrightarrow>
   py_get (fst result) (KStr ''name'') = Inr (workflow_name self') \<and>
   map_option Inr (jobs self') = Some (get_jobs result) \<and>
   map_option Inr (triggers self') = Some (get_triggers result)"
  using load_results_last [of "(self, defs, raws)" _ "(self', defs', raws')" ps result]
  by (simp add: load_files_def Let_def)

text \<open>The theorem at the two workflows of the instance.\<close>

theorem load_files_records_last_witness:
  "py_get (example_doc ''second'') (KStr ''name'') = Inr (VStr ''second'') \<and>
   map_option Inr (Some [(KStr ''build'', [(START_LINE, VInt 4), (END_LINE, VInt 6)])]) =
     Some (get_jobs (example_doc ''second'', example_raw)) \<and>
   map_option Inr (Some {KStr ''push''}) = Some (get_triggers (example_doc ''second'', example_raw))"
proof -
  have h1: "check_type example_runner = GITHUB_ACTIONS" by (simp add: example_runner_def)
  have h2: "load_files example_env (example_runner, [], []) [''wf/a.yml'', ''wf/b.yml''] None =
     Inr (\<lparr>check_type = GITHUB_ACTIONS, workflow_name = VStr ''second'',
           jobs = Some [(KStr ''build'', [(START_LINE, VInt 4), (END_LINE, VInt 6)])],
           triggers = Some {KStr ''push''}\<rparr>,
          [(''wf/a.yml'', example_doc ''first''), (''wf/b.yml'', example_doc ''second'')],
          [(''wf/a.yml'', example_raw), (''wf/b.yml'', example_raw)])"
    by (simp add: load_files_def example_env_def example_runner_def load_step_def Let_def
      example_doc_def get_jobs_def get_triggers_def get_triggers_try_def dict_get_def
      jobs_step_def set_marker_def START_LINE_def END_LINE_def)
  have h3: "filter (\<lambda>p. p \<noteq> None)
     (map snd (run_function example_env (\<lambda>f. (f, parse_file example_env f))
        (map (\<lambda>file. case None of Some fn \<Rightarrow> fn file | None \<Rightarrow> file) [''wf/a.yml'', ''wf/b.yml'']))) =
     [Some (example_doc ''first'', example_raw)] @ [Some (example_doc ''second'', example_raw)]"
    by (simp add: example_env_def)
  from load_files_records_last [OF h1 h2 h3] show ?thesis by simp
qed

section \<open>Properties of the finding builder and of the entry point\<close>

subsection \<open>Slices\<close>

lemma py_slice_sublist: "set (py_slice xs i j) \<subseteq> set xs"
  by (auto simp: py_slice_def Let_def dest: in_set_takeD in_set_dropD)

lemma py_slice_unlocated: "py_slice xs (- 1) 1 = (if length xs = 1 then xs else [])"
  by (cases xs) (auto simp: py_slice_def slice_index_def Let_def)

lemma py_slice_3_7:
  "7 \<le> length xs \<Longrightarrow> py_slice xs 3 7 = [xs ! 3, xs ! 4, xs ! 5, xs ! 6]"
proof -
  assume l: "7 \<le> length xs"
  then have "py_slice xs 3 7 = take 4 (drop 3 xs)"
    by (simp add: py_slice_def slice_index_def Let_def)
  also have "\<dots> = [xs ! 3, xs ! 4, xs ! 5, xs ! 6]"
    using l by (simp add: list_eq_iff_nth_eq nth_Cons' numeral_eq_Suc less_Suc_eq)
  finally show ?thesis .
qed

subsection \<open>Results without a check object\<close>

lemma process_results_append:
  "process_results E self fp raw s (xs @ ys) =
     process_results E self fp raw (process_results E self fp raw s xs) ys"
  by (induction xs arbitrary: s) auto

lemma process_result_orphan:
  "check r = None \<Longrightarrow> process_result E self fp raw s (k, r) = s"
  by (simp add: process_result_def)

lemma process_results_filter:
  "process_results E self fp raw s (filter (\<lambda>kr. check (snd kr) \<noteq> None) rs) =
   process_results E self fp raw s rs"
  by (induction rs arbitrary: s) (auto simp: process_result_def)

lemma process_results_length:
  "length (snd (process_results E self fp raw s rs)) =
   length (snd s) + length (filter (\<lambda>kr. check (snd kr) \<noteq> None) rs)"
  by (induction rs arbitrary: s) (auto simp: process_result_def Let_def)

lemma build_record_scan:
  "build_record (E\<lparr>scan := sc\<rparr>) self fp root raw key result c =
   build_record E self fp root raw key result c"
  by (simp add: build_record_def resolve_lines_def)

lemma process_result_scan:
  "process_result (E\<lparr>scan := sc\<rparr>) self fp raw s kr = process_result E self fp raw s kr"
  by (simp add: process_result_def build_record_scan Let_def split: option.splits)

lemma process_results_scan:
  "process_results (E\<lparr>scan := sc\<rparr>) self fp raw s rs = process_results E self fp raw s rs"
  by (induction rs arbitrary: s) (simp_all add: process_result_scan)

lemma scan_files_filter:
  "scan_files (E\<lparr>scan := \<lambda>reg fp doc skipped.
        filter (\<lambda>kr. check (snd kr) \<noteq> None) (scan E reg fp doc skipped)\<rparr>) self reg raws s defs =
   scan_files E self reg raws s defs"
  by (induction defs arbitrary: s)
     (simp_all add: process_results_scan process_results_filter Let_def
        split: option.splits del: not_None_eq)

lemma load_files_scan: "load_files (E\<lparr>scan := sc\<rparr>) s fs fn = load_files E s fs fn"
  by (simp add: load_files_def)

lemma load_walk_scan: "load_walk (E\<lparr>scan := sc\<rparr>) s ws = load_walk E s ws"
  by (induction ws arbitrary: s) (simp_all add: load_files_scan split: sum.splits)

text \<open>
  Claim C5. A raw result without check object changes nothing: the results before and after
  it are processed as if it was not there, the number of records added for a file is the
  number of its results with a check object, and the outcome of \<open>run\<close> is the same when the
  registry leaves all such results out.
\<close>

theorem run_skips_results_without_check:
  "(check r = None \<longrightarrow>
      process_results E self fp raw s (rs1 @ (k, r) # rs2) =
      process_results E self fp raw s (rs1 @ rs2)) \<and>
   length (snd (process_results E self fp raw s rs)) =
     length (snd s) + length (filter (\<lambda>kr. check (snd kr) \<noteq> None) rs) \<and>
   run (E\<lparr>scan := \<lambda>reg fp doc skipped.
          filter (\<lambda>kr. check (snd kr) \<noteq> None) (scan E reg fp doc skipped)\<rparr>) args w =
     run E args w"
proof (intro conjI impI)
  assume "check r = None"
  then show "process_results E self fp raw s (rs1 @ (k, r) # rs2) =
      process_results E self fp raw s (rs1 @ rs2)"
    by (simp add: process_results_append process_result_orphan)
next
  show "length (snd (process_results E self fp raw s rs)) =
     length (snd s) + length (filter (\<lambda>kr. check (snd kr) \<noteq> None) rs)"
    by (rule process_results_length)
next
  show "run (E\<lparr>scan := \<lambda>reg fp doc skipped.
          filter (\<lambda>kr. check (snd kr) \<noteq> None) (scan E reg fp doc skipped)\<rparr>) args w =
     run E args w"
    by (simp add: run_def load_files_scan load_walk_scan scan_files_filter Let_def
        split: sum.splits del: not_None_eq)
qed

text \<open>The theorem at the two results of the instance, the second of which has no check object.\<close>

theorem run_skips_results_without_check_witness:
  "check example_orphan = None \<and>
   process_results example_env example_runner ''wf/a.yml'' example_raw (Some ''wf'', [])
     ([(''jobs.build'', example_result)] @ (''jobs.none'', example_orphan) # []) =
   process_results example_env example_runner ''wf/a.yml'' example_raw (Some ''wf'', [])
     ([(''jobs.build'', example_result)] @ [])"
proof -
  have h: "check example_orphan = None" by (simp add: example_orphan_def)
  from run_skips_results_without_check
    [of example_orphan example_env example_runner "''wf/a.yml''" example_raw "(Some ''wf'', [])"
        "[(''jobs.build'', example_result)]" "''jobs.none''" "[]"] h
  show ?thesis by blast
qed

text \<open>
  Claim C8. \<open>run\<close> returns the empty report, and leaves the runner and the registry as they
  are, when neither files nor a root folder are given, and when the runner requires external
  checks and none are given. The result does not depend on the parser or the registry.
\<close>

theorem run_nothing_to_scan:
  "(\<not> given (files args) \<and> \<not> given (root_folder args) \<longrightarrow>
      run E args (self, registry) = Inr (empty_report self, self, registry)) \<and>
   (\<not> given (external_checks_dir args) \<and> require_external_checks E \<longrightarrow>
      run E args (self, registry) = Inr (empty_report self, self, registry)) \<and>
   records (empty_report self) = []"
  by (simp add: run_def empty_report_def)

text \<open>The theorem at a call with an empty file list, and at a call without external checks.\<close>

theorem run_nothing_to_scan_witness:
  "run example_env \<lparr>root_folder = None, external_checks_dir = Some [''extra''], files = Some []\<rparr>
     (example_runner, []) = Inr (empty_report example_runner, example_runner, []) \<and>
   run example_env \<lparr>root_folder = Some ''wf'', external_checks_dir = None, files = None\<rparr>
     (example_runner, []) = Inr (empty_report example_runner, example_runner, [])"
proof -
  have h1: "\<not> given (files \<lparr>root_folder = None, external_checks_dir = Some [''extra''], files = Some []\<rparr>) \<and>
     \<not> given (root_folder \<lparr>root_folder = None, external_checks_dir = Some [''extra''], files = Some []\<rparr>)"
    by (simp add: given_def)
  have h2: "\<not> given (external_checks_dir \<lparr>root_folder = Some ''wf'', external_checks_dir = None, files = None\<rparr>) \<and>
     require_external_checks example_env"
    by (simp add: given_def example_env_def)
  from run_nothing_to_scan [of "\<lparr>root_folder = None, external_checks_dir = Some [''extra''], files = Some []\<rparr>"
        example_env example_runner "[]"]
    run_nothing_to_scan [of "\<lparr>root_folder = Some ''wf'', external_checks_dir = None, files = None\<rparr>"
        example_env example_runner "[]"] h1 h2
  show ?thesis by blast
qed

text \<open>
  Claim C3. For a raw result with a check object whose \<open>results_configuration\<close> is falsy
  (\<open>None\<close> or empty), the start and end lines are \<open>(0, 0)\<close>, the record that is emitted has
  the line range \<open>[0, 1]\<close>, and its code block is the slice \<open>[-1:1]\<close> of the raw lines: empty,
  or the only raw line of a file of one line. This holds for raw lines of every length.
\<close>

theorem unlocated_result_range:
  "\<not> truthy (results_configuration result) \<Longrightarrow> check result = Some c \<Longrightarrow>
   resolve_lines E (results_configuration result) = (0, 0) \<and>
   snd (process_result E self fp raw (root, recs) (key, result)) =
     recs @ [build_record E self fp (fst (process_result E self fp raw (root, recs) (key, result)))
               raw key result c] \<and>
   file_line_range (build_record E self fp root' raw key result c) = [0, 1] \<and>
   code_block (build_record E self fp root' raw key result c) =
     (if length raw = 1 then raw else []) \<and>
   (code_block (build_record E self fp root' raw key result c) = [] \<or>
    raw \<noteq> [] \<and> code_block (build_record E self fp root' raw key result c) = [hd raw]) \<and>
   set (code_block (build_record E self fp root' raw key result c)) \<subseteq> set raw"
proof -
  assume f: "\<not> truthy (results_configuration result)" and c: "check result = Some c"
  from f have r: "resolve_lines E (results_configuration result) = (0, 0)"
    by (simp add: resolve_lines_def)
  have p: "snd (process_result E self fp raw (root, recs) (key, result)) =
     recs @ [build_record E self fp (fst (process_result E self fp raw (root, recs) (key, result)))
               raw key result c]"
    using c by (simp add: process_result_def Let_def)
  have l: "file_line_range (build_record E self fp root' raw key result c) = [0, 1]"
    by (simp add: build_record_def r)
  have b: "code_block (build_record E self fp root' raw key result c) =
     (if length raw = 1 then raw else [])"
    by (simp add: build_record_def r py_slice_unlocated)
  have "code_block (build_record E self fp root' raw key result c) = [] \<or>
    raw \<noteq> [] \<and> code_block (build_record E self fp root' raw key result c) = [hd raw]"
    unfolding b by (cases raw) auto
  moreover have "set (code_block (build_record E self fp root' raw key result c)) \<subseteq> set raw"
    by (simp add: build_record_def Let_def py_slice_sublist)
  ultimately show ?thesis using r p l b by blast
qed

text \<open>The theorem at a result without location in a file of one line.\<close>

theorem unlocated_result_range_witness:
  "resolve_lines example_env (results_configuration example_unlocated) = (0, 0) \<and>
   file_line_range (build_record example_env example_runner ''wf/a.yml'' (Some ''wf'')
      [(1, ''name: ci'')] ''jobs.build'' example_unlocated example_check) = [0, 1] \<and>
   code_block (build_record example_env example_runner ''wf/a.yml'' (Some ''wf'')
      [(1, ''name: ci'')] ''jobs.build'' example_unlocated example_check) = [(1, ''name: ci'')]"
proof -
  have h1: "\<not> truthy (results_configuration example_unlocated)"
    by (simp add: example_unlocated_def)
  have h2: "check example_unlocated = Some example_check"
    by (simp add: example_unlocated_def)
  from unlocated_result_range [OF h1 h2, of example_env example_runner "''wf/a.yml''"
      "[(1, ''name: ci'')]" "Some ''wf''" "[]" "''jobs.build''" "Some ''wf''"]
  show ?thesis by simp
qed

text \<open>
  Against claim C2 as stated: in the workflow of seven lines of the instance, the record for
  the result at the lines 4 to 6 has the code block of the source lines 4 to 7; the source
  lines 3 to 7 are another slice.
\<close>

theorem located_result_snippet_counterexample:
  "resolve_lines example_env (results_configuration example_result) = (4, 6) \<and>
   map fst (code_block (build_record example_env example_runner ''wf/a.yml'' (Some ''wf'')
      example_raw ''jobs.build'' example_result example_check)) = [4, 5, 6, 7] \<and>
   map fst (py_slice example_raw 2 7) = [3, 4, 5, 6, 7]"
  by (simp add: build_record_def resolve_lines_def example_result_def example_env_def
      example_lines_def dict_get_def START_LINE_def END_LINE_def example_raw_def
      py_slice_def slice_index_def Let_def)

text \<open>
  Claim C2, amended. For a raw result with a check object whose start and end lines are
  \<open>(4, 6)\<close>, in a file of at least seven raw lines, the record that is emitted has the line
  range \<open>[4, 7]\<close>, and its code block is the slice \<open>[3:7]\<close> of the raw lines: when the raw
  lines are numbered from 1, the source lines 4 to 7, the lines of the line range, with one
  line after the violation and none before it.
\<close>

theorem located_result_snippet:
  "resolve_lines E (results_configuration result) = (4, 6) \<Longrightarrow> check result = Some c \<Longrightarrow>
   7 \<le> length raw \<Longrightarrow>
   snd (process_result E self fp raw (root, recs) (key, result)) =
     recs @ [build_record E self fp (fst (process_result E self fp raw (root, recs) (key, result)))
               raw key result c] \<and>
   file_line_range (build_record E self fp root' raw key result c) = [4, 7] \<and>
   code_block (build_record E self fp root' raw key result c) =
     [raw ! 3, raw ! 4, raw ! 5, raw ! 6] \<and>
   ((\<forall>i < length raw. fst (raw ! i) = int i + 1) \<longrightarrow>
      map fst (code_block (build_record E self fp root' raw key result c)) = [4, 5, 6, 7])"
proof -
  assume r: "resolve_lines E (results_configuration result) = (4, 6)"
    and c: "check result = Some c" and n: "7 \<le> length raw"
  have p: "snd (process_result E self fp raw (root, recs) (key, result)) =
     recs @ [build_record E self fp (fst (process_result E self fp raw (root, recs) (key, result)))
               raw key result c]"
    using c by (simp add: process_result_def Let_def)
  have l: "file_line_range (build_record E self fp root' raw key result c) = [4, 7]"
    by (simp add: build_record_def r)
  have b: "code_block (build_record E self fp root' raw key result c) =
     [raw ! 3, raw ! 4, raw ! 5, raw ! 6]"
    using py_slice_3_7 [OF n] by (simp add: build_record_def r)
  have "(\<forall>i < length raw. fst (raw ! i) = int i + 1) \<longrightarrow>
      map fst (code_block (build_record E self fp root' raw key result c)) = [4, 5, 6, 7]"
    unfolding b using n by simp
  with p l b show ?thesis by blast
qed

text \<open>The theorem at the located result of the instance.\<close>

theorem located_result_snippet_witness:
  "file_line_range (build_record example_env example_runner ''wf/a.yml'' (Some ''wf'')
      example_raw ''jobs.build'' example_result example_check) = [4, 7] \<and>
   code_block (build_record example_env example_runner ''wf/a.yml'' (Some ''wf'')
      example_raw ''jobs.build'' example_result example_check) =
     [(4, ''  build:''), (5, ''    runs-on: ubuntu''), (6, ''    steps: []''), (7, ''# end'')]"
proof -
  have h1: "resolve_lines example_env (results_configuration example_result) = (4, 6)"
    by (simp add: resolve_lines_def example_result_def example_env_def
      example_lines_def dict_get_def START_LINE_def END_LINE_def)
  have h2: "check example_result = Some example_check" by (simp add: example_result_def)
  have h3: "7 \<le> length example_raw" by (simp add: example_raw_def)
  from located_result_snippet [OF h1 h2 h3, of example_runner "''wf/a.yml''" "Some ''wf''" "[]"
      "''jobs.build''" "Some ''wf''"]
  show ?thesis by (simp add: example_raw_def)
qed

section \<open>Repeated runs\<close>

subsection \<open>Triples of the records\<close>

lemma triple_build_record:
  "triple (build_record E self fp root raw key result c) = result_triple E fp (key, result) c"
  by (simp add: triple_def build_record_def result_triple_def Let_def)

lemma process_results_triples:
  "map triple (snd (process_results E self fp raw s rs)) =
   map triple (snd s) @ results_triples E fp rs"
  by (induction rs arbitrary: s)
     (auto simp: process_result_def Let_def triple_build_record split: option.splits)

lemma scan_files_triples:
  "\<forall>d \<in> set defs. \<exists>p. parse_file E (fst d) = Some p \<and> snd d = fst p \<and>
      map_of raws (fst d) = Some (snd p) \<Longrightarrow>
   \<exists>s'. scan_files E self reg raws s defs = Inr s' \<and>
     map triple (snd s') = map triple (snd s) @ concat (map (file_triples E reg) (map fst defs))"
proof (induction defs arbitrary: s)
  case Nil then show ?case by simp
next
  case (Cons d defs)
  from Cons.prems obtain p where p: "parse_file E (fst d) = Some p" "snd d = fst p"
    "map_of raws (fst d) = Some (snd p)" by auto
  let ?s1 = "process_results E self (fst d) (snd p) s
      (scan E reg (fst d) (snd d) (collect_suppressions_for_context E (snd p)))"
  from Cons.prems have "\<forall>d \<in> set defs. \<exists>p. parse_file E (fst d) = Some p \<and> snd d = fst p \<and>
      map_of raws (fst d) = Some (snd p)" by simp
  from Cons.IH[OF this, of ?s1] obtain s' where
    s': "scan_files E self reg raws ?s1 defs = Inr s'"
    and t: "map triple (snd s') = map triple (snd ?s1) @ concat (map (file_triples E reg) (map fst defs))"
    by blast
  have "map triple (snd ?s1) = map triple (snd s) @ file_triples E reg (fst d)"
    by (simp add: process_results_triples file_triples_def p)
  with s' t p show ?case by (simp add: Let_def)
qed

lemma loaded_from_scan:
  assumes l: "loaded_from P K defs raws"
  shows "\<forall>d \<in> set defs. \<exists>p. P (fst d) = Some p \<and> snd d = fst p \<and> map_of raws (fst d) = Some (snd p)"
proof
  fix d assume d: "d \<in> set defs"
  from l have dist: "distinct (map fst defs)" and k: "fst ` set defs = K"
    and a: "\<forall>f \<in> K. P f \<noteq> None \<and> map_of defs f = Some (fst (the (P f))) \<and>
        map_of raws f = Some (snd (the (P f)))"
    unfolding loaded_from_def by blast+
  from d k have "fst d \<in> K" by auto
  with a have p: "P (fst d) \<noteq> None" "map_of defs (fst d) = Some (fst (the (P (fst d))))"
    "map_of raws (fst d) = Some (snd (the (P (fst d))))" by blast+
  from dist d have "map_of defs (fst d) = Some (snd d)" by (cases d) simp
  with p have "P (fst d) = Some (the (P (fst d))) \<and> snd d = fst (the (P (fst d))) \<and>
     map_of raws (fst d) = Some (snd (the (P (fst d))))" by auto
  then show "\<exists>p. P (fst d) = Some p \<and> snd d = fst p \<and> map_of raws (fst d) = Some (snd p)"
    by blast
qed

lemma loaded_from_keys:
  "loaded_from P K dA rA \<Longrightarrow> loaded_from P K dB rB \<Longrightarrow> mset (map fst dA) = mset (map fst dB)"
proof -
  assume a: "loaded_from P K dA rA" and b: "loaded_from P K dB rB"
  then have "distinct (map fst dA)" "distinct (map fst dB)" "set (map fst dA) = set (map fst dB)"
    by (auto simp: loaded_from_def)
  then show ?thesis by (metis set_eq_iff_mset_eq_distinct)
qed

lemma mset_concat_map:
  "mset xs = mset ys \<Longrightarrow> mset (concat (map T xs)) = mset (concat (map T ys))"
proof -
  assume e: "mset xs = mset ys"
  have "\<And>zs. mset (concat (map T zs)) = sum_mset (image_mset (\<lambda>z. mset (T z)) (mset zs))"
    by (induct_tac zs) auto
  with e show ?thesis by simp
qed

subsection \<open>Loading is independent of the order of the results\<close>

lemma loaded_from_update:
  assumes l: "loaded_from P K defs raws" and p: "P f = Some p"
  shows "loaded_from P (insert f K) (AList.update f (fst p) defs) (AList.update f (snd p) raws)"
proof -
  from l have dist: "distinct (map fst defs)" and k: "fst ` set defs = K"
    and a: "\<forall>f \<in> K. P f \<noteq> None \<and> map_of defs f = Some (fst (the (P f))) \<and>
        map_of raws f = Some (snd (the (P f)))"
    unfolding loaded_from_def by blast+
  have 1: "distinct (map fst (AList.update f (fst p) defs))" using dist by (rule distinct_update)
  have 2: "fst ` set (AList.update f (fst p) defs) = insert f K" using k by (simp add: dom_update)
  have 3: "\<forall>g \<in> insert f K. P g \<noteq> None \<and>
        map_of (AList.update f (fst p) defs) g = Some (fst (the (P g))) \<and>
        map_of (AList.update f (snd p) raws) g = Some (snd (the (P g)))"
    using a p by (simp add: update_conv' del: map_of_eq_Some_iff)
  from 1 2 3 show ?thesis unfolding loaded_from_def by blast
qed

lemma load_step_loaded:
  assumes l: "load_step (s, d, r) fr = Inr (s', d', r')" and f: "snd fr = P (fst fr)"
    and i: "loaded_from P K d r"
  shows "loaded_from P (K \<union> (if snd fr = None then {} else {fst fr})) d' r'"
proof (cases "snd fr")
  case None
  with l i show ?thesis by (simp add: load_step_def)
next
  case (Some p)
  from l Some have "d' = AList.update (fst fr) (fst p) d" "r' = AList.update (fst fr) (snd p) r"
    by (auto simp: load_step_def Let_def split: if_splits sum.splits)
  moreover from Some f have "P (fst fr) = Some p" by simp
  ultimately show ?thesis using loaded_from_update[OF i, of "fst fr" p] Some by simp
qed

lemma load_results_loaded:
  "load_results (s, d, r) rs = Inr (s', d', r') \<Longrightarrow> \<forall>fr \<in> set rs. snd fr = P (fst fr) \<Longrightarrow>
   loaded_from P K d r \<Longrightarrow>
   loaded_from P (K \<union> fst ` {x \<in> set rs. snd x \<noteq> None}) d' r'"
proof (induction rs arbitrary: s d r K)
  case Nil then show ?case by simp
next
  case (Cons fr rs)
  from Cons.prems(1) obtain s1 d1 r1 where st: "load_step (s, d, r) fr = Inr (s1, d1, r1)"
    and l: "load_results (s1, d1, r1) rs = Inr (s', d', r')"
    by (auto split: sum.splits)
  from Cons.prems(2) have f: "snd fr = P (fst fr)" and fs: "\<forall>fr \<in> set rs. snd fr = P (fst fr)"
    by auto
  have i: "loaded_from P (K \<union> (if snd fr = None then {} else {fst fr})) d1 r1"
    using st f Cons.prems(3) by (rule load_step_loaded)
  have e: "K \<union> (if snd fr = None then {} else {fst fr}) \<union> fst ` {x \<in> set rs. snd x \<noteq> None} =
     K \<union> fst ` {x \<in> set (fr # rs). snd x \<noteq> None}" by (auto simp: image_iff)
  from Cons.IH[OF l fs i] show ?case unfolding e .
qed

lemma load_step_succeeds:
  "load_step s fr = Inr s' \<Longrightarrow> check_type (fst t) = check_type (fst s) \<Longrightarrow>
   \<exists>t'. load_step t fr = Inr t'"
proof (cases "snd fr")
  case None
  then have "load_step t fr = Inr t" by (simp add: load_step_def)
  then show ?thesis by (rule exI)
next
  case (Some p)
  assume "load_step s fr = Inr s'" "check_type (fst t) = check_type (fst s)"
  with Some show ?thesis
    by (cases "check_type (fst s) = GITHUB_ACTIONS")
       (simp_all add: load_step_def Let_def split: sum.splits)
qed

lemma load_results_each:
  "load_results s rs = Inr s' \<Longrightarrow> fr \<in> set rs \<Longrightarrow>
   \<exists>s1 s1'. check_type (fst s1) = check_type (fst s) \<and> load_step s1 fr = Inr s1'"
proof (induction rs arbitrary: s)
  case Nil then show ?case by simp
next
  case (Cons x rs)
  from Cons.prems(1) obtain s1 where st: "load_step s x = Inr s1"
    and l: "load_results s1 rs = Inr s'" by (auto split: sum.splits)
  show ?case
  proof (cases "fr = x")
    case True with st show ?thesis by blast
  next
    case False
    with Cons.prems(2) have "fr \<in> set rs" by simp
    from Cons.IH[OF l this] load_step_check_type[OF st] show ?thesis by auto
  qed
qed

lemma load_results_succeeds:
  "\<forall>fr \<in> set rs. \<exists>s1 s1'. check_type (fst s1) = check_type (fst t) \<and> load_step s1 fr = Inr s1' \<Longrightarrow>
   \<exists>t'. load_results t rs = Inr t'"
proof (induction rs arbitrary: t)
  case Nil
  have "load_results t [] = Inr t" by simp
  then show ?case by (rule exI)
next
  case (Cons x rs)
  from Cons.prems obtain s1 s1' where c: "check_type (fst s1) = check_type (fst t)"
    and st: "load_step s1 x = Inr s1'" by auto
  from c have "check_type (fst t) = check_type (fst s1)" by simp
  from load_step_succeeds[OF st this] obtain t1 where t1: "load_step t x = Inr t1"
    by blast
  from load_step_check_type[OF t1] Cons.prems
  have "\<forall>fr \<in> set rs. \<exists>s1 s1'. check_type (fst s1) = check_type (fst t1) \<and> load_step s1 fr = Inr s1'"
    by simp
  from Cons.IH[OF this] obtain t' where "load_results t1 rs = Inr t'" by blast
  with t1 have "load_results t (x # rs) = Inr t'" by simp
  then show ?case by (rule exI)
qed

lemma load_results_same:
  assumes l: "load_results sA rsA = Inr sA'"
    and e: "set rsB = set rsA"
    and f: "\<forall>fr \<in> set rsA. snd fr = P (fst fr)"
    and s: "same_load P sA sB"
  shows "\<exists>sB'. load_results sB rsB = Inr sB' \<and> same_load P sA' sB'"
proof -
  from s have ct: "check_type (fst sA) = check_type (fst sB)" by (simp add: same_load_def)
  have "\<forall>fr \<in> set rsB. \<exists>s1 s1'. check_type (fst s1) = check_type (fst sB) \<and> load_step s1 fr = Inr s1'"
    using load_results_each[OF l] e ct by simp
  from load_results_succeeds[OF this] obtain sB' where lB: "load_results sB rsB = Inr sB'" by blast
  from s obtain K where kA: "loaded_from P K (fst (snd sA)) (snd (snd sA))"
    and kB: "loaded_from P K (fst (snd sB)) (snd (snd sB))" by (auto simp: same_load_def)
  from l have lA': "load_results (fst sA, fst (snd sA), snd (snd sA)) rsA =
      Inr (fst sA', fst (snd sA'), snd (snd sA'))" by simp
  from lB have lB': "load_results (fst sB, fst (snd sB), snd (snd sB)) rsB =
      Inr (fst sB', fst (snd sB'), snd (snd sB'))" by simp
  from f e have fB: "\<forall>fr \<in> set rsB. snd fr = P (fst fr)" by simp
  from load_results_loaded[OF lA' f kA] load_results_loaded[OF lB' fB kB] e
  have "\<exists>K. loaded_from P K (fst (snd sA')) (snd (snd sA')) \<and>
          loaded_from P K (fst (snd sB')) (snd (snd sB'))" by auto
  moreover from load_results_check_type[OF l] load_results_check_type[OF lB] ct
  have "check_type (fst sA') = check_type (fst sB')" by simp
  ultimately show ?thesis using lB by (auto simp: same_load_def)
qed

lemma load_files_check_type:
  "load_files E s fs fn = Inr s' \<Longrightarrow> check_type (fst s') = check_type (fst s)"
  by (simp add: load_files_def Let_def load_results_check_type)

lemma load_walk_check_type:
  "load_walk E s ws = Inr s' \<Longrightarrow> check_type (fst s') = check_type (fst s)"
proof (induction ws arbitrary: s)
  case Nil then show ?case by simp
next
  case (Cons w ws)
  then show ?case by (auto split: sum.splits dest: load_files_check_type)
qed

lemma load_files_same:
  assumes l: "load_files E sA fs fn = Inr sA'"
    and h1: "\<forall>g xs. mset (run_function E g xs) = mset (map g xs)"
    and h2: "\<forall>g xs. mset (rf g xs) = mset (map g xs)"
    and s: "same_load (parse_file E) sA sB"
  shows "\<exists>sB'. load_files (E\<lparr>run_function := rf\<rparr>) sB fs fn = Inr sB' \<and>
           same_load (parse_file E) sA' sB'"
proof -
  let ?g = "\<lambda>f. (f, parse_file E f)"
  let ?fs = "map (\<lambda>file. case fn of Some fn \<Rightarrow> fn file | None \<Rightarrow> file) fs"
  from l have lA: "load_results sA (run_function E ?g ?fs) = Inr sA'"
    by (simp add: load_files_def Let_def)
  from h1 have "mset (run_function E ?g ?fs) = mset (map ?g ?fs)" by blast
  then have sA: "set (run_function E ?g ?fs) = set (map ?g ?fs)" by (rule mset_eq_setD)
  from h2 have "mset (rf ?g ?fs) = mset (map ?g ?fs)" by blast
  then have sB: "set (rf ?g ?fs) = set (map ?g ?fs)" by (rule mset_eq_setD)
  from sA have f: "\<forall>fr \<in> set (run_function E ?g ?fs). snd fr = parse_file E (fst fr)" by auto
  from sA sB have e: "set (rf ?g ?fs) = set (run_function E ?g ?fs)" by simp
  from load_results_same[OF lA e f s] show ?thesis by (simp add: load_files_def Let_def)
qed

lemma load_walk_same:
  assumes h1: "\<forall>g xs. mset (run_function E g xs) = mset (map g xs)"
    and h2: "\<forall>g xs. mset (rf g xs) = mset (map g xs)"
  shows "load_walk E sA ws = Inr sA' \<Longrightarrow> same_load (parse_file E) sA sB \<Longrightarrow>
    \<exists>sB'. load_walk (E\<lparr>run_function := rf\<rparr>) sB ws = Inr sB' \<and> same_load (parse_file E) sA' sB'"
proof (induction ws arbitrary: sA sB)
  case Nil
  then show ?case by simp
next
  case (Cons w ws)
  from Cons.prems(1) obtain s1 where
    l: "load_files E sA (filter_ignored_paths E (fst w) (snd (snd w))) (Some (path_join E (fst w))) = Inr s1"
    and r: "load_walk E s1 ws = Inr sA'" by (auto split: sum.splits)
  from load_files_same[OF l h1 h2 Cons.prems(2)] obtain t1 where
    lB: "load_files (E\<lparr>run_function := rf\<rparr>) sB (filter_ignored_paths E (fst w) (snd (snd w)))
           (Some (path_join E (fst w))) = Inr t1"
    and s1: "same_load (parse_file E) s1 t1" by blast
  from Cons.IH[OF r s1] obtain sB' where "load_walk (E\<lparr>run_function := rf\<rparr>) t1 ws = Inr sB'"
    and "same_load (parse_file E) sA' sB'" by blast
  with lB show ?case by simp
qed

lemma results_triples_run_function:
  "results_triples (E\<lparr>run_function := rf\<rparr>) fp rs = results_triples E fp rs"
  by (induction rs) (simp_all add: result_triple_def resolve_lines_def split: option.splits)

lemma file_triples_run_function:
  "file_triples (E\<lparr>run_function := rf\<rparr>) reg = file_triples E reg"
  by (rule ext) (simp add: file_triples_def results_triples_run_function split: option.splits)

lemma same_load_initial:
  "check_type selfA = check_type selfB \<Longrightarrow> same_load P (selfA, [], []) (selfB, [], [])"
  by (auto simp: same_load_def loaded_from_def)

lemma same_load_triples:
  assumes s: "same_load (parse_file E) sA sB"
    and a: "scan_files E (fst sA) reg (snd (snd sA)) (rootA, []) (fst (snd sA)) = Inr tA"
  shows "\<exists>tB. scan_files (E\<lparr>run_function := rf\<rparr>) (fst sB) reg (snd (snd sB)) (rootB, [])
            (fst (snd sB)) = Inr tB \<and>
          mset (map triple (snd tB)) = mset (map triple (snd tA))"
proof -
  from s obtain K where kA: "loaded_from (parse_file E) K (fst (snd sA)) (snd (snd sA))"
    and kB: "loaded_from (parse_file E) K (fst (snd sB)) (snd (snd sB))"
    by (auto simp: same_load_def)
  from scan_files_triples[OF loaded_from_scan[OF kA], of "fst sA" reg "(rootA, [])"] a
  have tA: "map triple (snd tA) = concat (map (file_triples E reg) (map fst (fst (snd sA))))"
    by simp
  from loaded_from_scan[OF kB]
  have "\<forall>d \<in> set (fst (snd sB)). \<exists>p. parse_file (E\<lparr>run_function := rf\<rparr>) (fst d) = Some p \<and>
      snd d = fst p \<and> map_of (snd (snd sB)) (fst d) = Some (snd p)" by simp
  from scan_files_triples[OF this, of "fst sB" reg "(rootB, [])"] obtain tB where
    b: "scan_files (E\<lparr>run_function := rf\<rparr>) (fst sB) reg (snd (snd sB)) (rootB, [])
            (fst (snd sB)) = Inr tB"
    and tB': "map triple (snd tB) = map triple (snd (rootB, [])) @
       concat (map (file_triples (E\<lparr>run_function := rf\<rparr>) reg) (map fst (fst (snd sB))))"
    by blast
  from tB' have tB: "map triple (snd tB) = concat (map (file_triples E reg) (map fst (fst (snd sB))))"
    by (simp add: file_triples_run_function)
  from loaded_from_keys[OF kA kB]
  have "mset (concat (map (file_triples E reg) (map fst (fst (snd sA))))) =
        mset (concat (map (file_triples E reg) (map fst (fst (snd sB)))))"
    by (rule mset_concat_map)
  with tA tB have "mset (map triple (snd tB)) = mset (map triple (snd tA))"
    by (metis mset_map)
  with b show ?thesis by blast
qed

text \<open>
  Claim C10. Let a first call of \<open>run\<close> return a report, and let the registry be such that
  loading the same external checks again leaves it as it is. Then a second call with the
  same arguments and collaborators, on the runner and the registry as the first call left
  them, returns a report with the same multiset of triples \<open>(check_id, resource,
  file_line_range)\<close>. The parallel runner may give the results in another order in the second
  call.
\<close>

theorem run_twice_same_triples:
  assumes h1: "\<forall>g xs. mset (run_function E g xs) = mset (map g xs)"
    and h2: "\<forall>g xs. mset (rf g xs) = mset (map g xs)"
    and r1: "run E args (self, registry) = Inr (rep1, self1, registry1)"
    and h4: "given (external_checks_dir args) \<longrightarrow>
       fold (load_external_checks E) (the (external_checks_dir args)) registry1 = registry1"
  shows "\<exists>rep2 self2. run (E\<lparr>run_function := rf\<rparr>) args (self1, registry1) =
            Inr (rep2, self2, registry1) \<and>
          mset (map triple (records rep2)) = mset (map triple (records rep1))"
proof (cases "(\<not> given (files args) \<and> \<not> given (root_folder args)) \<or>
              (\<not> given (external_checks_dir args) \<and> require_external_checks E)")
  case True
  with r1 have "rep1 = empty_report self" "self1 = self" "registry1 = registry"
    by (auto simp: run_def Let_def split: if_splits)
  moreover from True have "run (E\<lparr>run_function := rf\<rparr>) args (self1, registry1) =
      Inr (empty_report self1, self1, registry1)"
    by (auto simp: run_def Let_def)
  ultimately show ?thesis by (simp add: empty_report_def)
next
  case False
  define reg' where "reg' = (if given (external_checks_dir args) then
      fold (load_external_checks E) (the (external_checks_dir args)) registry else registry)"
  define LA where "LA = (if given (files args) then
      load_files E (self, [], []) (the (files args)) None else Inr (self, [], []))"
  define WA where "WA = (\<lambda>s1. if given (root_folder args) then
      load_walk E s1 (os_walk E (the (root_folder args))) else Inr s1)"
  define LB where "LB = (if given (files args) then
      load_files (E\<lparr>run_function := rf\<rparr>) (self1, [], []) (the (files args)) None
      else Inr (self1, [], []))"
  define WB where "WB = (\<lambda>s1. if given (root_folder args) then
      load_walk (E\<lparr>run_function := rf\<rparr>) s1 (os_walk E (the (root_folder args))) else Inr s1)"
  have runA: "run E args (self, registry) =
     (case LA of Inl e \<Rightarrow> Inl e | Inr s1 \<Rightarrow>
        (case WA s1 of Inl e \<Rightarrow> Inl e | Inr s2 \<Rightarrow>
           (case scan_files E (fst s2) reg' (snd (snd s2)) (root_folder args, []) (fst (snd s2)) of
              Inl e \<Rightarrow> Inl e
            | Inr s3 \<Rightarrow> Inr (\<lparr>report_check_type = check_type self, records = snd s3\<rparr>,
                             fst s2, reg'))))"
    unfolding run_def Let_def reg'_def LA_def WA_def using False by (auto split: sum.splits)
  from r1 runA have e: "(case LA of Inl e \<Rightarrow> Inl e | Inr s1 \<Rightarrow>
        (case WA s1 of Inl e \<Rightarrow> Inl e | Inr s2 \<Rightarrow>
           (case scan_files E (fst s2) reg' (snd (snd s2)) (root_folder args, []) (fst (snd s2)) of
              Inl e \<Rightarrow> Inl e
            | Inr s3 \<Rightarrow> Inr (\<lparr>report_check_type = check_type self, records = snd s3\<rparr>,
                             fst s2, reg')))) = Inr (rep1, self1, registry1)"
    by simp
  then obtain s1 where la: "LA = Inr s1" by (cases LA) simp_all
  with e obtain s2 where wa: "WA s1 = Inr s2" by (cases "WA s1") simp_all
  with e la obtain s3 where
    sa: "scan_files E (fst s2) reg' (snd (snd s2)) (root_folder args, []) (fst (snd s2)) = Inr s3"
    by (cases "scan_files E (fst s2) reg' (snd (snd s2)) (root_folder args, []) (fst (snd s2))")
       simp_all
  from e la wa sa have res: "rep1 = \<lparr>report_check_type = check_type self, records = snd s3\<rparr>"
      "self1 = fst s2" "registry1 = reg'"
    by simp_all
  have c1: "check_type (fst s1) = check_type self"
    using la by (auto simp: LA_def split: if_splits dest: load_files_check_type)
  have c2: "check_type (fst s2) = check_type (fst s1)"
    using wa by (auto simp: WA_def split: if_splits dest: load_walk_check_type)
  from c1 c2 res have "check_type self = check_type self1" by simp
  then have i: "same_load (parse_file E) (self, [], []) (self1, [], [])"
    by (rule same_load_initial)
  have "\<exists>t1. LB = Inr t1 \<and> same_load (parse_file E) s1 t1"
  proof (cases "given (files args)")
    case True
    with la have "load_files E (self, [], []) (the (files args)) None = Inr s1"
      by (simp add: LA_def)
    from load_files_same[OF this h1 h2 i] True show ?thesis by (simp add: LB_def)
  next
    case False
    with la i show ?thesis by (simp add: LA_def LB_def)
  qed
  then obtain t1 where lb: "LB = Inr t1" and st1: "same_load (parse_file E) s1 t1" by blast
  have "\<exists>t2. WB t1 = Inr t2 \<and> same_load (parse_file E) s2 t2"
  proof (cases "given (root_folder args)")
    case True
    with wa have "load_walk E s1 (os_walk E (the (root_folder args))) = Inr s2"
      by (simp add: WA_def)
    from load_walk_same[OF h1 h2 this st1] True show ?thesis by (simp add: WB_def)
  next
    case False
    with wa st1 show ?thesis by (simp add: WA_def WB_def)
  qed
  then obtain t2 where wb: "WB t1 = Inr t2" and st2: "same_load (parse_file E) s2 t2" by blast
  from same_load_triples[OF st2 sa, of rf "root_folder args"] obtain t3 where
    sb: "scan_files (E\<lparr>run_function := rf\<rparr>) (fst t2) reg' (snd (snd t2)) (root_folder args, [])
            (fst (snd t2)) = Inr t3"
    and m: "mset (map triple (snd t3)) = mset (map triple (snd s3))" by blast
  have reg'': "(if given (external_checks_dir args) then
      fold (load_external_checks E) (the (external_checks_dir args)) registry1 else registry1) = reg'"
    using h4 res by simp
  have "run (E\<lparr>run_function := rf\<rparr>) args (self1, registry1) =
     (case LB of Inl e \<Rightarrow> Inl e | Inr s1 \<Rightarrow>
        (case WB s1 of Inl e \<Rightarrow> Inl e | Inr s2 \<Rightarrow>
           (case scan_files (E\<lparr>run_function := rf\<rparr>) (fst s2) reg' (snd (snd s2))
                   (root_folder args, []) (fst (snd s2)) of
              Inl e \<Rightarrow> Inl e
            | Inr s3 \<Rightarrow> Inr (\<lparr>report_check_type = check_type self1, records = snd s3\<rparr>,
                             fst s2, reg'))))"
    unfolding run_def Let_def LB_def WB_def reg''[symmetric] using False
    by (auto split: sum.splits)
  with lb wb sb have "run (E\<lparr>run_function := rf\<rparr>) args (self1, registry1) =
      Inr (\<lparr>report_check_type = check_type self1, records = snd t3\<rparr>, fst t2, registry1)"
    using res by simp
  with m res show ?thesis by simp
qed

text \<open>
  The theorem at the instance, with the files given both as a list and by the root folder,
  and a second call in which the results come in the reverse order.
\<close>

theorem run_twice_same_triples_witness:
  "\<exists>rep2 self2.
     run (example_env\<lparr>run_function := \<lambda>g xs. rev (map g xs)\<rparr>)
       \<lparr>root_folder = Some ''wf'', external_checks_dir = Some [''extra''],
        files = Some [''wf/b.yml'', ''wf/a.yml'']\<rparr>
       (example_runner\<lparr>workflow_name := VStr ''first'',
          jobs := Some [(KStr ''build'', [(START_LINE, VInt 4), (END_LINE, VInt 6)])],
          triggers := Some {KStr ''push''}\<rparr>, [''extra'']) =
       Inr (rep2, self2, [''extra'']) \<and>
     mset (map triple (records rep2)) =
       mset [(''CKV_GHA_1'', ''wf/a.yml.jobs.build'', [4, 7])]"
proof -
  let ?args = "\<lparr>root_folder = Some ''wf'', external_checks_dir = Some [''extra''],
        files = Some [''wf/b.yml'', ''wf/a.yml'']\<rparr>"
  let ?self1 = "example_runner\<lparr>workflow_name := VStr ''first'',
          jobs := Some [(KStr ''build'', [(START_LINE, VInt 4), (END_LINE, VInt 6)])],
          triggers := Some {KStr ''push''}\<rparr>"
  let ?rec = "\<lparr>check_id = ''CKV_GHA_1'', bc_check_id = ''BC_GHA_1'',
       check_name = ''no shell injection'', check_result = VStr ''FAILED'',
       code_block = [(4, ''  build:''), (5, ''    runs-on: ubuntu''),
                     (6, ''    steps: []''), (7, ''# end'')],
       file_path = ''/a.yml'', file_line_range = [4, 7],
       resource = ''wf/a.yml.jobs.build'', check_class = ''checks.job'',
       file_abs_path = ''/repo/wf/a.yml'', severity = ''HIGH'',
       github_actions = Some \<lparr>gha_jobs = Some [(KStr ''build'', [(START_LINE, VInt 4), (END_LINE, VInt 6)])],
          gha_triggers = Some {KStr ''push''}, gha_workflow_name = VStr ''first''\<rparr>\<rparr>"
  have h1: "\<forall>g xs. mset (run_function example_env g xs) = mset (map g xs)"
    by (simp add: example_env_def)
  have h2: "\<forall>g xs. mset ((\<lambda>g xs. rev (map g xs)) g xs) = mset (map g xs)" by simp
  have r1: "run example_env ?args (example_runner, []) =
      Inr (\<lparr>report_check_type = GITHUB_ACTIONS, records = [?rec]\<rparr>, ?self1, [''extra''])"
    by (simp add: run_def given_def load_files_def example_env_def example_runner_def load_step_def
      Let_def example_doc_def get_jobs_def get_triggers_def get_triggers_try_def dict_get_def
      jobs_step_def set_marker_def START_LINE_def END_LINE_def process_result_def
      build_record_def resolve_lines_def example_result_def example_orphan_def example_lines_def
      example_raw_def example_check_def py_slice_def slice_index_def get_resource_def)
  have h4: "given (external_checks_dir ?args) \<longrightarrow>
       fold (load_external_checks example_env) (the (external_checks_dir ?args)) [''extra''] =
       [''extra'']"
    by (simp add: example_env_def)
  from run_twice_same_triples [OF h1 h2 r1 h4]
  show ?thesis by (simp add: triple_def)
qed

end
